theory Spec2Isabelle
  imports Complex_Main "HOL-Library.Word"
begin

unbundle bit_operations_syntax

section \<open>Data model (layout.ts)\<close>

text \<open>
  JavaScript numbers are modelled as real numbers: every statement below is about the
  arithmetic the code writes down, not about IEEE rounding, NaN or infinities.
  Set identifiers are strings (the keys of a JavaScript object are strings).
\<close>

type_synonym setid = string

text \<open>\<^verbatim>\<open>type Area = { sets; size; weight?; label? }\<close>\<close>

record area =
  area_sets :: "setid list"
  area_size :: real
  area_weight :: "real option"
  area_label :: "string option"

section \<open>Errors\<close>

text \<open>
  What the code throws: the string \<^verbatim>\<open>"ERROR: missing pairwise overlap information"\<close> of
  \<^verbatim>\<open>greedyLayout\<close>, the string \<^verbatim>\<open>"Initial bisect points must have opposite signs"\<close> of the
  bisection, the \<^verbatim>\<open>TypeError\<close> of the runtime for a property read on \<^verbatim>\<open>undefined\<close>, and
  its \<^verbatim>\<open>RangeError\<close> for a recursion that exhausts the call stack.
\<close>

datatype error = MissingPairwiseOverlap | BisectSigns | TypeError | RangeError

section \<open>Missing pairwise completion: addMissingAreas\<close>

text \<open>The template string \<^verbatim>\<open>`${a},${b}`\<close> that keys the \<^verbatim>\<open>pairs\<close> object.\<close>

definition pairKey :: "setid \<Rightarrow> setid \<Rightarrow> string" where
  "pairKey a b = a @ '','' @ b"

text \<open>
  The first loop of \<^verbatim>\<open>addMissingAreas\<close>: an Area with one set pushes its id on
  \<^verbatim>\<open>ids\<close>, an Area with two sets stores both key orders in \<^verbatim>\<open>pairs\<close>, any other
  Area is skipped.
\<close>

fun scanAreas :: "area list \<Rightarrow> setid list \<times> string set \<Rightarrow> setid list \<times> string set" where
  "scanAreas [] st = st"
| "scanAreas (ar # rest) (ids, pairs) =
     scanAreas rest
       (case area_sets ar of
          [a] \<Rightarrow> (ids @ [a], pairs)
        | [a, b] \<Rightarrow> (ids, insert (pairKey b a) (insert (pairKey a b) pairs))
        | _ \<Rightarrow> (ids, pairs))"

text \<open>
  \<^verbatim>\<open>ids.sort((a, b) => a.toString().localeCompare(b.toString()))\<close>: a stable sort by
  a comparator. The collation behind \<^verbatim>\<open>localeCompare\<close> belongs to the host, so the
  comparator is a parameter; \<open>cmp a b \<le> 0\<close> means that \<open>a\<close> may stay before \<open>b\<close>.
\<close>

fun insertBy :: "('a \<Rightarrow> 'a \<Rightarrow> real) \<Rightarrow> 'a \<Rightarrow> 'a list \<Rightarrow> 'a list" where
  "insertBy cmp x [] = [x]"
| "insertBy cmp x (y # ys) = (if cmp x y \<le> 0 then x # y # ys else y # insertBy cmp x ys)"

definition sortBy :: "('a \<Rightarrow> 'a \<Rightarrow> real) \<Rightarrow> 'a list \<Rightarrow> 'a list" where
  "sortBy cmp xs = foldr (insertBy cmp) xs []"

text \<open>A comparator by character code, used where a concrete collation is needed.\<close>

fun codeUnitCompare :: "string \<Rightarrow> string \<Rightarrow> real" where
  "codeUnitCompare [] [] = 0"
| "codeUnitCompare [] (y # ys) = - 1"
| "codeUnitCompare (x # xs) [] = 1"
| "codeUnitCompare (x # xs) (y # ys) =
     (if (of_char x :: nat) < of_char y then - 1
      else if (of_char y :: nat) < of_char x then 1
      else codeUnitCompare xs ys)"

text \<open>The index pairs \<open>i < j\<close> of the nested loop, in the order the loop visits them.\<close>

fun idPairs :: "'a list \<Rightarrow> ('a \<times> 'a) list" where
  "idPairs [] = []"
| "idPairs (x # xs) = map (\<lambda>y. (x, y)) xs @ idPairs xs"

definition zeroArea :: "setid \<Rightarrow> setid \<Rightarrow> area" where
  "zeroArea a b = \<lparr>area_sets = [a, b], area_size = 0, area_weight = None, area_label = None\<rparr>"

definition singleIds :: "area list \<Rightarrow> setid list" where
  "singleIds areas = fst (scanAreas areas ([], {}))"

definition pairKeys :: "area list \<Rightarrow> string set" where
  "pairKeys areas = snd (scanAreas areas ([], {}))"

definition missingAreas :: "(setid \<Rightarrow> setid \<Rightarrow> real) \<Rightarrow> area list \<Rightarrow> area list" where
  "missingAreas cmp areas =
     map (\<lambda>(a, b). zeroArea a b)
       (filter (\<lambda>(a, b). pairKey a b \<notin> pairKeys areas) (idPairs (sortBy cmp (singleIds areas))))"

definition addMissingAreas :: "(setid \<Rightarrow> setid \<Rightarrow> real) \<Rightarrow> area list \<Rightarrow> area list" where
  "addMissingAreas cmp areas = areas @ missingAreas cmp areas"

text \<open>Area literals: a single-set Area and a two-set Area without weight or label.\<close>

definition singleArea :: "setid \<Rightarrow> real \<Rightarrow> area" where
  "singleArea a s = \<lparr>area_sets = [a], area_size = s, area_weight = None, area_label = None\<rparr>"

definition pairArea :: "setid \<Rightarrow> setid \<Rightarrow> real \<Rightarrow> area" where
  "pairArea a b s = \<lparr>area_sets = [a, b], area_size = s, area_weight = None, area_label = None\<rparr>"

text \<open>What each Area contributes to \<^verbatim>\<open>ids\<close> and to \<^verbatim>\<open>pairs\<close>.\<close>

definition singleOf :: "area \<Rightarrow> setid list" where
  "singleOf ar = (case area_sets ar of [a] \<Rightarrow> [a] | _ \<Rightarrow> [])"

definition keysOf :: "area \<Rightarrow> string set" where
  "keysOf ar = (case area_sets ar of [a, b] \<Rightarrow> {pairKey a b, pairKey b a} | _ \<Rightarrow> {})"

text \<open>The input has an explicit two-set Area for \<open>a\<close> and \<open>b\<close>, in either order.\<close>

definition hasPairArea :: "area list \<Rightarrow> setid \<Rightarrow> setid \<Rightarrow> bool" where
  "hasPairArea areas a b = (\<exists>ar\<in>set areas. area_sets ar = [a, b] \<or> area_sets ar = [b, a])"

text \<open>No identifier of a one-set or two-set Area contains the comma that \<open>pairKey\<close> joins with.\<close>

definition commaFree :: "area list \<Rightarrow> bool" where
  "commaFree areas =
     (\<forall>ar\<in>set areas. length (area_sets ar) \<le> 2 \<longrightarrow> (\<forall>s\<in>set (area_sets ar). CHR '','' \<notin> set s))"

section \<open>Circles and layouts\<close>

text \<open>
  \<^verbatim>\<open>type Circle = { x; y; rowid?; size?; radius; parent?; setid }\<close>. The \<^verbatim>\<open>parent\<close>
  field is a reference to another circle object; it is an address of the object store of
  Section ``Object store''.
\<close>

record circle =
  circle_x :: real
  circle_y :: real
  circle_rowid :: "nat option"
  circle_size :: "real option"
  circle_radius :: real
  circle_parent :: "nat option"
  circle_setid :: setid

text \<open>
  \<^verbatim>\<open>type CircleRecord = Record<string | number, Circle>\<close>: an object used as a
  dictionary. It is an association list in insertion order with one entry per key;
  \<open>recGet\<close> is the property read \<^verbatim>\<open>rec[k]\<close> (\<open>None\<close> for \<^verbatim>\<open>undefined\<close>) and \<open>recSet\<close>
  the assignment \<^verbatim>\<open>rec[k] = v\<close>, which keeps the place of a key already there.
\<close>

type_synonym 'v jsobject = "(string \<times> 'v) list"

type_synonym circleRecord = "circle jsobject"

definition recGet :: "'v jsobject \<Rightarrow> string \<Rightarrow> 'v option" where
  "recGet r k = map_of r k"

fun recSet :: "'v jsobject \<Rightarrow> string \<Rightarrow> 'v \<Rightarrow> 'v jsobject" where
  "recSet [] k v = [(k, v)]"
| "recSet ((k', v') # r) k v = (if k' = k then (k, v) # r else (k', v') # recSet r k v)"

section \<open>Geometry primitives (circle-intersection.ts)\<close>

text \<open>
  Modelled from the spec: the module \<^verbatim>\<open>./circle-intersection\<close> (\<^verbatim>\<open>distance\<close>,
  \<^verbatim>\<open>circleOverlap\<close>, \<^verbatim>\<open>intersectionArea\<close>, \<^verbatim>\<open>circleCircleIntersection\<close>) is imported by
  the layout code but is not among the sources. \<open>distance\<close> is the Euclidean distance of two
  points with x, y fields.
\<close>

definition distance :: "real \<times> real \<Rightarrow> real \<times> real \<Rightarrow> real" where
  "distance p q = sqrt ((fst p - fst q) * (fst p - fst q) + (snd p - snd q) * (snd p - snd q))"

definition centre :: "circle \<Rightarrow> real \<times> real" where
  "centre c = (circle_x c, circle_y c)"

text \<open>
  Modelled from the spec: \<open>circleOverlap r1 r2 d\<close> is 0 when \<open>d \<ge> r1 + r2\<close>, the area of
  the smaller circle when \<open>d \<le> |r1 - r2|\<close>, and otherwise the sum of the two circular
  segments cut by the common chord; \<open>circleArea r w\<close> is the segment of height \<open>w\<close> of a
  circle of radius \<open>r\<close>.
\<close>

definition circleArea :: "real \<Rightarrow> real \<Rightarrow> real" where
  "circleArea r width = r * r * arccos (1 - width / r) - (r - width) * sqrt (width * (2 * r - width))"

definition circleOverlap :: "real \<Rightarrow> real \<Rightarrow> real \<Rightarrow> real" where
  "circleOverlap r1 r2 d =
     (if d \<ge> r1 + r2 then 0
      else if d \<le> \<bar>r1 - r2\<bar> then pi * min r1 r2 * min r1 r2
      else
        let w1 = r1 - (d * d - r2 * r2 + r1 * r1) / (2 * d);
            w2 = r2 - (d * d - r1 * r1 + r2 * r2) / (2 * d)
        in circleArea r1 w1 + circleArea r2 w2)"

section \<open>The loss function\<close>

text \<open>
  \<^verbatim>\<open>lossFunction(sets, overlaps)\<close>. The N-way primitive \<^verbatim>\<open>intersectionArea(...).overlap\<close>
  is a parameter \<open>ia\<close> on circles. \<open>getCircles\<close> is the inner function of that name: it looks
  the ids up, \<open>None\<close> where the layout has no circle for an id (\<^verbatim>\<open>undefined\<close>).

  Modelled from the spec: \<^verbatim>\<open>intersectionArea\<close> examines the circles it is given pair by
  pair, so an \<^verbatim>\<open>undefined\<close> among them is a property read on \<^verbatim>\<open>undefined\<close>, the
  \<^verbatim>\<open>TypeError\<close> of the runtime. Only the branch for two members tests for missing circles.

  \<open>lossStep\<close> is one round of the loop on the running sum, \<open>Inr None\<close> of \<open>achievedOverlap\<close>
  standing for \<^verbatim>\<open>continue\<close>; an error ends the loop.
\<close>

definition areaWeight :: "area \<Rightarrow> real" where
  "areaWeight ar = (case area_weight ar of None \<Rightarrow> 1 | Some w \<Rightarrow> if w = 0 then 1 else w)"

definition getCircles :: "circleRecord \<Rightarrow> setid list \<Rightarrow> circle option list" where
  "getCircles sets indices = map (recGet sets) indices"

definition achievedOverlap ::
  "(circle list \<Rightarrow> real) \<Rightarrow> circleRecord \<Rightarrow> area \<Rightarrow> error + real option" where
  "achievedOverlap ia sets ar =
     (if length (area_sets ar) = 1 then Inr None
      else if length (area_sets ar) = 2 then
        (case (recGet sets (area_sets ar ! 0), recGet sets (area_sets ar ! 1)) of
           (Some left, Some right) \<Rightarrow>
             Inr (Some (circleOverlap (circle_radius left) (circle_radius right)
                          (distance (centre left) (centre right))))
         | _ \<Rightarrow> Inr None)
      else if None \<in> set (getCircles sets (area_sets ar)) then Inl TypeError
      else Inr (Some (ia (map the (getCircles sets (area_sets ar))))))"

definition lossStep ::
  "(circle list \<Rightarrow> real) \<Rightarrow> circleRecord \<Rightarrow> area \<Rightarrow> error + real \<Rightarrow> error + real" where
  "lossStep ia sets ar st =
     (case st of
        Inl e \<Rightarrow> Inl e
      | Inr output \<Rightarrow>
          (case achievedOverlap ia sets ar of
             Inl e \<Rightarrow> Inl e
           | Inr None \<Rightarrow> Inr output
           | Inr (Some overlap) \<Rightarrow>
               Inr (output + areaWeight ar * (overlap - area_size ar) * (overlap - area_size ar))))"

definition lossFunction ::
  "(circle list \<Rightarrow> real) \<Rightarrow> circleRecord \<Rightarrow> area list \<Rightarrow> error + real" where
  "lossFunction ia sets overlaps = fold (lossStep ia sets) overlaps (Inr 0)"

text \<open>
  The contribution of one Area as the amended claim words it: nothing for an Area with one
  member and for a two-member Area with a circle missing from the layout; otherwise the
  weighted squared difference of achieved and target overlap. \<open>circlesExist\<close> says that every
  circle an Area refers to is in the layout, and \<open>lossDefined\<close> that this is so for each Area
  with a member count other than 1 and 2.
\<close>

definition areaContribution :: "(circle list \<Rightarrow> real) \<Rightarrow> circleRecord \<Rightarrow> area \<Rightarrow> real" where
  "areaContribution ia sets ar =
     (let n = length (area_sets ar);
          w = (if area_weight ar = None \<or> area_weight ar = Some 0 then 1 else the (area_weight ar));
          target = area_size ar
      in if n = 1 then 0
         else if n = 2 then
           (if recGet sets (area_sets ar ! 0) = None \<or> recGet sets (area_sets ar ! 1) = None then 0
            else w * (circleOverlap (circle_radius (the (recGet sets (area_sets ar ! 0))))
                        (circle_radius (the (recGet sets (area_sets ar ! 1))))
                        (distance (centre (the (recGet sets (area_sets ar ! 0))))
                                  (centre (the (recGet sets (area_sets ar ! 1))))) - target)\<^sup>2)
         else w * (ia (map (\<lambda>k. the (recGet sets k)) (area_sets ar)) - target)\<^sup>2)"

definition circlesExist :: "circleRecord \<Rightarrow> area \<Rightarrow> bool" where
  "circlesExist sets ar = list_all (\<lambda>k. recGet sets k \<noteq> None) (area_sets ar)"

definition lossDefined :: "circleRecord \<Rightarrow> area list \<Rightarrow> bool" where
  "lossDefined sets overlaps =
     list_all (\<lambda>ar. length (area_sets ar) = 1 \<or> length (area_sets ar) = 2 \<or> circlesExist sets ar)
       overlaps"

text \<open>A circle literal with only the fields every circle has.\<close>

definition mkCircle :: "setid \<Rightarrow> real \<Rightarrow> real \<Rightarrow> real \<Rightarrow> circle" where
  "mkCircle k x y r =
     \<lparr>circle_x = x, circle_y = y, circle_rowid = None, circle_size = None, circle_radius = r,
      circle_parent = None, circle_setid = k\<rparr>"

section \<open>Parameters\<close>

datatype layoutKind = Greedy | MDS | Best

text \<open>
  \<^verbatim>\<open>type Params = { layout?; restarts?; maxIterations?; seed?; history? }\<close>. The \<^verbatim>\<open>history\<close>
  field is a log that the optimisers append to and that no layout is computed from; it is
  left out.
\<close>

record params =
  params_layout :: "layoutKind option"
  params_restarts :: "nat option"
  params_maxIterations :: "nat option"
  params_seed :: "real option"

section \<open>Best-of selector: bestInitialLayout\<close>

text \<open>
  \<^verbatim>\<open>bestInitialLayout(areas, params)\<close>, over the two layout functions and the loss function
  it calls. A call that throws ends the function with that error; the loss of the
  constrained layout is taken before the loss of the greedy one.
\<close>

definition bestInitialLayout ::
  "(area list \<Rightarrow> params \<Rightarrow> error + circleRecord) \<Rightarrow> (area list \<Rightarrow> params \<Rightarrow> error + circleRecord) \<Rightarrow>
   (circleRecord \<Rightarrow> area list \<Rightarrow> error + real) \<Rightarrow> area list \<Rightarrow> params \<Rightarrow> error + circleRecord" where
  "bestInitialLayout greedyLayout constrainedMDSLayout loss areas ps =
     (case greedyLayout areas ps of
        Inl e \<Rightarrow> Inl e
      | Inr initial \<Rightarrow>
          if length areas \<ge> 8 then
            (case constrainedMDSLayout areas ps of
               Inl e \<Rightarrow> Inl e
             | Inr constrained \<Rightarrow>
                 (case loss constrained areas of
                    Inl e \<Rightarrow> Inl e
                  | Inr constrainedLoss \<Rightarrow>
                      (case loss initial areas of
                         Inl e \<Rightarrow> Inl e
                       | Inr greedyLoss \<Rightarrow>
                           if constrainedLoss + 1 / 10 ^ 8 < greedyLoss then Inr constrained
                           else Inr initial)))
          else Inr initial)"

text \<open>The number of single-set Areas of an input, which the claim counts.\<close>

definition singleSetCount :: "area list \<Rightarrow> nat" where
  "singleSetCount areas = length (filter (\<lambda>ar. length (area_sets ar) = 1) areas)"

definition noParams :: params where
  "noParams = \<lparr>params_layout = None, params_restarts = None, params_maxIterations = None,
               params_seed = None\<rparr>"

section \<open>Enumeration order of object keys\<close>

text \<open>
  \<^verbatim>\<open>for (k in obj)\<close>, \<^verbatim>\<open>Object.keys\<close> and \<^verbatim>\<open>Object.entries\<close> visit the keys that are
  canonical array indices first, in ascending numeric order, and then the other keys in
  insertion order.
\<close>

definition isDigit :: "char \<Rightarrow> bool" where
  "isDigit c = (48 \<le> (of_char c :: nat) \<and> (of_char c :: nat) \<le> 57)"

definition decimalValue :: "string \<Rightarrow> nat" where
  "decimalValue s = fold (\<lambda>c n. 10 * n + ((of_char c :: nat) - 48)) s 0"

definition isArrayIndex :: "string \<Rightarrow> bool" where
  "isArrayIndex s =
     (s \<noteq> [] \<and> list_all isDigit s \<and> (s = ''0'' \<or> hd s \<noteq> CHR ''0'') \<and>
      decimalValue s < 2 ^ 32 - 1)"

definition objectEntries :: "'v jsobject \<Rightarrow> (string \<times> 'v) list" where
  "objectEntries r =
     sort_key (\<lambda>(k, v). decimalValue k) (filter (\<lambda>(k, v). isArrayIndex k) r) @
     filter (\<lambda>(k, v). \<not> isArrayIndex k) r"

definition objectKeys :: "'v jsobject \<Rightarrow> string list" where
  "objectKeys r = map fst (objectEntries r)"

section \<open>The top-level entry point: vennSolution\<close>

text \<open>\<^verbatim>\<open>type GetVennSolutionOptions\<close>; the comparator is over circles.\<close>

record options =
  opt_orientation :: real
  opt_width :: real
  opt_height :: real
  opt_padding :: real
  opt_set_id_delimiter :: string
  opt_orientationOrder :: "(circle \<Rightarrow> circle \<Rightarrow> real) option"
  opt_layout :: "layoutKind option"
  opt_seed :: "real option"

text \<open>An entry of \<^verbatim>\<open>computeTextCentres\<close>, and the two kinds of output rows.\<close>

record textCentre =
  tc_x :: real
  tc_y :: real
  tc_disjoint :: "bool option"

record intersectionRow =
  ir_set_id :: string
  ir_sets :: "setid list"
  ir_path :: string
  ir_textX :: "real option"
  ir_textY :: "real option"
  ir_size :: real

record circleRow =
  cr_set_id :: string
  cr_x :: real
  cr_y :: real
  cr_size :: real
  cr_textX :: real
  cr_textY :: real

record vennOutput =
  out_circles :: "circleRow list"
  out_intersections :: "intersectionRow list"

text \<open>\<^verbatim>\<open>Array.prototype.join\<close> on a list of strings.\<close>

fun joinWith :: "string \<Rightarrow> string list \<Rightarrow> string" where
  "joinWith d [] = []"
| "joinWith d [s] = s"
| "joinWith d (s # t # rest) = s @ d @ joinWith d (t # rest)"

text \<open>
  The stages \<^verbatim>\<open>vennSolution\<close> calls: \<^verbatim>\<open>venn\<close>, \<^verbatim>\<open>normalizeSolution\<close>, \<^verbatim>\<open>scaleSolution\<close>,
  \<^verbatim>\<open>computeTextCentres\<close> and \<^verbatim>\<open>intersectionAreaPath\<close>. Each of the first four may throw.
\<close>

record stages =
  st_venn :: "area list \<Rightarrow> params \<Rightarrow> error + circleRecord"
  st_normalizeSolution ::
    "circleRecord \<Rightarrow> real \<Rightarrow> (circle \<Rightarrow> circle \<Rightarrow> real) option \<Rightarrow> error + circleRecord"
  st_scaleSolution :: "circleRecord \<Rightarrow> real \<Rightarrow> real \<Rightarrow> real \<Rightarrow> error + circleRecord"
  st_computeTextCentres :: "circleRecord \<Rightarrow> area list \<Rightarrow> error + textCentre jsobject"
  st_intersectionAreaPath :: "circle option list \<Rightarrow> string"

text \<open>The filter \<^verbatim>\<open>datum.size !== 0 && datum.sets.length > 0\<close>.\<close>

definition safeData :: "area list \<Rightarrow> area list" where
  "safeData data = filter (\<lambda>datum. area_size datum \<noteq> 0 \<and> length (area_sets datum) > 0) data"

text \<open>
  One row of \<^verbatim>\<open>intersections\<close>; destructuring \<^verbatim>\<open>textCenters[setName]!\<close> throws when the
  entry is missing.
\<close>

definition intersectionOf ::
  "stages \<Rightarrow> options \<Rightarrow> circleRecord \<Rightarrow> textCentre jsobject \<Rightarrow> area \<Rightarrow> error + intersectionRow" where
  "intersectionOf st opts solution textCenters datum =
     (case recGet textCenters (joinWith '','' (area_sets datum)) of
        None \<Rightarrow> Inl TypeError
      | Some tc \<Rightarrow>
          Inr \<lparr>ir_set_id = joinWith (opt_set_id_delimiter opts) (area_sets datum),
               ir_sets = area_sets datum,
               ir_path = st_intersectionAreaPath st (map (recGet solution) (area_sets datum)),
               ir_textX = (if tc_disjoint tc = Some True then None else Some (tc_x tc)),
               ir_textY = (if tc_disjoint tc = Some True then None else Some (tc_y tc)),
               ir_size = area_size datum\<rparr>)"

definition circleOf :: "textCentre jsobject \<Rightarrow> string \<times> circle \<Rightarrow> error + circleRow" where
  "circleOf textCenters e =
     (case recGet textCenters (fst e) of
        None \<Rightarrow> Inl TypeError
      | Some tc \<Rightarrow>
          Inr \<lparr>cr_set_id = fst e, cr_x = circle_x (snd e), cr_y = circle_y (snd e),
               cr_size = (circle_radius (snd e) * 2)\<^sup>2,
               cr_textX = tc_x tc, cr_textY = tc_y tc\<rparr>)"

text \<open>\<^verbatim>\<open>xs.map(f)\<close> where \<open>f\<close> may throw: the first error ends the loop.\<close>

fun mapE :: "('a \<Rightarrow> error + 'b) \<Rightarrow> 'a list \<Rightarrow> error + 'b list" where
  "mapE f [] = Inr []"
| "mapE f (x # xs) =
     (case f x of
        Inl e \<Rightarrow> Inl e
      | Inr y \<Rightarrow> (case mapE f xs of Inl e \<Rightarrow> Inl e | Inr ys \<Rightarrow> Inr (y # ys)))"

definition vennSolution :: "stages \<Rightarrow> area list \<Rightarrow> options \<Rightarrow> error + vennOutput" where
  "vennSolution st data opts =
     (if safeData data = [] then Inr \<lparr>out_circles = [], out_intersections = []\<rparr>
      else
        case st_venn st (safeData data)
               \<lparr>params_layout = opt_layout opts, params_restarts = None,
                params_maxIterations = None, params_seed = opt_seed opts\<rparr> of
          Inl e \<Rightarrow> Inl e
        | Inr solution0 \<Rightarrow>
            (case (if opt_orientation opts \<noteq> pi / 2
                   then st_normalizeSolution st solution0 (opt_orientation opts)
                          (opt_orientationOrder opts)
                   else Inr solution0) of
               Inl e \<Rightarrow> Inl e
             | Inr solution1 \<Rightarrow>
                 (case st_scaleSolution st solution1 (opt_width opts) (opt_height opts)
                         (opt_padding opts) of
                    Inl e \<Rightarrow> Inl e
                  | Inr solution \<Rightarrow>
                      (case st_computeTextCentres st solution (safeData data) of
                         Inl e \<Rightarrow> Inl e
                       | Inr textCenters \<Rightarrow>
                           (case mapE (intersectionOf st opts solution textCenters) (safeData data) of
                              Inl e \<Rightarrow> Inl e
                            | Inr rows \<Rightarrow>
                                (case mapE (circleOf textCenters) (objectEntries solution) of
                                   Inl e \<Rightarrow> Inl e
                                 | Inr circles \<Rightarrow>
                                     Inr \<lparr>out_circles = circles,
                                          out_intersections =
                                            filter (\<lambda>row. length (ir_sets row) > 1) rows\<rparr>))))))"

text \<open>Stages that throw whenever they are called.\<close>

definition throwingStages :: stages where
  "throwingStages =
     \<lparr>st_venn = (\<lambda>areas ps. Inl TypeError),
      st_normalizeSolution = (\<lambda>s orientation order. Inl TypeError),
      st_scaleSolution = (\<lambda>s w h p. Inl TypeError),
      st_computeTextCentres = (\<lambda>s areas. Inl TypeError),
      st_intersectionAreaPath = (\<lambda>cs. [])\<rparr>"

text \<open>The options of the usage example of the package.\<close>

definition defaultOptions :: options where
  "defaultOptions =
     \<lparr>opt_orientation = pi / 2, opt_width = 500, opt_height = 500, opt_padding = 0,
      opt_set_id_delimiter = '','', opt_orientationOrder = None, opt_layout = Some Greedy,
      opt_seed = None\<rparr>"

section \<open>Object store\<close>

text \<open>
  \<^verbatim>\<open>normalizeSolution\<close>, \<^verbatim>\<open>orientateCircles\<close>, \<^verbatim>\<open>disjointCluster\<close> and \<^verbatim>\<open>scaleSolution\<close>
  work on circle objects that are shared between arrays and records and assigned to in place.
  A store holds the circle objects; an address is an index of the store, a new object is
  appended, and an assignment to a field replaces the object at its address. A dictionary or
  an array of circles holds addresses.
\<close>

type_synonym addr = nat

type_synonym store = "circle list"

type_synonym circleRefs = "addr jsobject"

text \<open>The value \<^verbatim>\<open>undefined\<close>, the value \<^verbatim>\<open>null\<close>, or a proper value.\<close>

datatype 'a jsvalue = Undefined | Null | Defined 'a

text \<open>
  \<^verbatim>\<open>getBoundingBox(circles)\<close>. For an empty array \<^verbatim>\<open>Math.max.apply(null, [])\<close> is
  \<open>-\<infinity>\<close> and \<^verbatim>\<open>Math.min.apply(null, [])\<close> is \<open>+\<infinity>\<close>; the result is \<open>None\<close> then.
\<close>

record range =
  range_max :: real
  range_min :: real

record bounds =
  xRange :: range
  yRange :: range

definition minMax :: "(circle \<Rightarrow> real) \<Rightarrow> circle list \<Rightarrow> range" where
  "minMax d circles =
     \<lparr>range_max = fold max (map (\<lambda>c. d c + circle_radius c) (tl circles))
                    (d (hd circles) + circle_radius (hd circles)),
      range_min = fold min (map (\<lambda>c. d c - circle_radius c) (tl circles))
                    (d (hd circles) - circle_radius (hd circles))\<rparr>"

definition getBoundingBox :: "circle list \<Rightarrow> bounds option" where
  "getBoundingBox circles =
     (if circles = [] then None
      else Some \<lparr>xRange = minMax circle_x circles, yRange = minMax circle_y circles\<rparr>)"

section \<open>Scaling: scaleSolution\<close>

text \<open>
  The circle that \<^verbatim>\<open>scaleSolution\<close> builds from an input circle:
  \<^verbatim>\<open>{...circle, radius: scaling * circle.radius, x: padding + xOffset + (circle.x - xRange.min) * scaling, y: ...}\<close>.
\<close>

definition scaledCircle :: "real \<Rightarrow> real \<Rightarrow> real \<Rightarrow> real \<Rightarrow> real \<Rightarrow> real \<Rightarrow> circle \<Rightarrow> circle" where
  "scaledCircle scaling padding xOffset yOffset xmin ymin c =
     c\<lparr>circle_radius := scaling * circle_radius c,
       circle_x := padding + xOffset + (circle_x c - xmin) * scaling,
       circle_y := padding + yOffset + (circle_y c - ymin) * scaling\<rparr>"

text \<open>
  One round of the last loop: an entry with the empty string as id is skipped
  (\<^verbatim>\<open>if (!circle || !id) continue\<close>), any other gets a new object in \<^verbatim>\<open>scaled\<close>.
\<close>

definition scaleStep :: "(circle \<Rightarrow> circle) \<Rightarrow> string \<times> circle \<Rightarrow> store \<times> circleRefs \<Rightarrow> store \<times> circleRefs" where
  "scaleStep f e st =
     (if fst e = [] then st
      else (fst st @ [f (snd e)], recSet (snd st) (fst e) (length (fst st))))"

definition scaleSolution :: "store \<Rightarrow> circleRefs \<Rightarrow> real \<Rightarrow> real \<Rightarrow> real \<Rightarrow> store \<times> circleRefs" where
  "scaleSolution h solution width0 height0 padding =
     (let entries = objectEntries solution;
          setids = map fst entries;
          circles = map (\<lambda>e. h ! snd e) entries;
          width = width0 - 2 * padding;
          height = height0 - 2 * padding
      in case getBoundingBox circles of
           None \<Rightarrow> (h, [])
         | Some bounds \<Rightarrow>
             let xmax = range_max (xRange bounds); xmin = range_min (xRange bounds);
                 ymax = range_max (yRange bounds); ymin = range_min (yRange bounds)
             in if xmax = xmin \<or> ymax = ymin then (h, solution)
                else
                  let xScaling = width / (xmax - xmin);
                      yScaling = height / (ymax - ymin);
                      scaling = min yScaling xScaling;
                      xOffset = (width - (xmax - xmin) * scaling) / 2;
                      yOffset = (height - (ymax - ymin) * scaling) / 2
                  in fold (scaleStep (scaledCircle scaling padding xOffset yOffset xmin ymin))
                       (zip setids circles) (h, []))"

text \<open>The circles a record refers to, in enumeration order, and its bounding box.\<close>

definition circlesOf :: "store \<Rightarrow> circleRefs \<Rightarrow> circle list" where
  "circlesOf h solution = map (\<lambda>e. h ! snd e) (objectEntries solution)"

text \<open>The scale factor and the offsets that \<^verbatim>\<open>scaleSolution\<close> computes from a bounding box.\<close>

definition scalingOf :: "bounds \<Rightarrow> real \<Rightarrow> real \<Rightarrow> real \<Rightarrow> real" where
  "scalingOf b width height padding =
     min ((height - 2 * padding) / (range_max (yRange b) - range_min (yRange b)))
         ((width - 2 * padding) / (range_max (xRange b) - range_min (xRange b)))"

definition xOffsetOf :: "bounds \<Rightarrow> real \<Rightarrow> real \<Rightarrow> real \<Rightarrow> real" where
  "xOffsetOf b width height padding =
     ((width - 2 * padding) -
      (range_max (xRange b) - range_min (xRange b)) * scalingOf b width height padding) / 2"

definition yOffsetOf :: "bounds \<Rightarrow> real \<Rightarrow> real \<Rightarrow> real \<Rightarrow> real" where
  "yOffsetOf b width height padding =
     ((height - 2 * padding) -
      (range_max (yRange b) - range_min (yRange b)) * scalingOf b width height padding) / 2"

definition degenerate :: "bounds \<Rightarrow> bool" where
  "degenerate b =
     (range_max (xRange b) = range_min (xRange b) \<or> range_max (yRange b) = range_min (yRange b))"

section \<open>Orientation: orientateCircles\<close>

text \<open>\<^verbatim>\<open>Math.atan2(y, x)\<close>, by its mathematical definition on the reals.\<close>

definition atan2 :: "real \<Rightarrow> real \<Rightarrow> real" where
  "atan2 y x =
     (if 0 < x then arctan (y / x)
      else if x < 0 \<and> 0 \<le> y then arctan (y / x) + pi
      else if x < 0 \<and> y < 0 then arctan (y / x) - pi
      else if 0 < y then pi / 2
      else if y < 0 then - (pi / 2)
      else 0)"

text \<open>\<^verbatim>\<open>orientation ?? 0\<close>.\<close>

definition orZero :: "real jsvalue \<Rightarrow> real" where
  "orZero v = (case v of Defined r \<Rightarrow> r | _ \<Rightarrow> 0)"

text \<open>
  The first statement of \<^verbatim>\<open>orientateCircles\<close>. Only \<^verbatim>\<open>orientationOrder === null\<close> sorts by
  radius; otherwise \<^verbatim>\<open>circles.sort(orientationOrder)\<close> runs, and with \<^verbatim>\<open>undefined\<close> as
  comparator the default order of \<^verbatim>\<open>sort\<close> compares the elements as strings: every circle
  object is \<^verbatim>\<open>"[object Object]"\<close>, so the stable sort leaves the array as it is.
\<close>

definition sortCircles :: "store \<Rightarrow> addr list \<Rightarrow> (circle \<Rightarrow> circle \<Rightarrow> real) jsvalue \<Rightarrow> addr list" where
  "sortCircles h circles orientationOrder =
     (case orientationOrder of
        Null \<Rightarrow> sortBy (\<lambda>a b. circle_radius (h ! b) - circle_radius (h ! a)) circles
      | Undefined \<Rightarrow> circles
      | Defined order \<Rightarrow> sortBy (\<lambda>a b. order (h ! a) (h ! b)) circles)"

text \<open>Shift the circles so that the first one is at (0, 0).\<close>

definition shiftCircles :: "store \<Rightarrow> addr list \<Rightarrow> store" where
  "shiftCircles h circles =
     (case circles of
        [] \<Rightarrow> h
      | c0 # rest \<Rightarrow>
          let largestX = circle_x (h ! c0); largestY = circle_y (h ! c0)
          in fold (\<lambda>a h. h[a := (h ! a)\<lparr>circle_x := circle_x (h ! a) - largestX,
                                         circle_y := circle_y (h ! a) - largestY\<rparr>]) circles h)"

text \<open>Exactly two circles, the second inside the first: move it to one side.\<close>

definition nudgeSubset :: "store \<Rightarrow> addr list \<Rightarrow> store" where
  "nudgeSubset h circles =
     (case circles of
        [c1, c2] \<Rightarrow>
          let dist = distance (centre (h ! c1)) (centre (h ! c2))
          in if dist < \<bar>circle_radius (h ! c2) - circle_radius (h ! c1)\<bar>
             then h[c2 := (h ! c2)\<lparr>circle_x := circle_x (h ! c1) + circle_radius (h ! c1)
                                      - circle_radius (h ! c2) - 1 / 10 ^ 10\<rparr>]
             else h
      | _ \<Rightarrow> h)"

text \<open>Rotate the circles about the origin; the angle is taken from the second circle.\<close>

definition rotateCircles :: "store \<Rightarrow> addr list \<Rightarrow> real jsvalue \<Rightarrow> store" where
  "rotateCircles h circles orientation =
     (if length circles > 1 then
        let rotation = atan2 (circle_x (h ! (circles ! 1))) (circle_y (h ! (circles ! 1)))
                         - orZero orientation;
            c = cos rotation;
            s = sin rotation
        in fold (\<lambda>a h. h[a := (h ! a)\<lparr>circle_x := c * circle_x (h ! a) - s * circle_y (h ! a),
                                       circle_y := s * circle_x (h ! a) + c * circle_y (h ! a)\<rparr>])
             circles h
      else h)"

text \<open>The two loops that bring the angle into the range from 0 to \<open>2 * pi\<close>.\<close>

function wrapUp :: "real \<Rightarrow> real" where
  "wrapUp angle = (if angle < 0 then wrapUp (angle + 2 * pi) else angle)"
  by pat_completeness auto
termination
proof (relation "measure (\<lambda>a. nat \<lceil>- a / (2 * pi)\<rceil>)")
  show "wf (measure (\<lambda>a. nat \<lceil>- a / (2 * pi)\<rceil>))" by simp
next
  fix angle :: real
  assume "angle < 0"
  then have p: "0 < - angle / (2 * pi)" by (simp add: divide_neg_pos)
  then have "1 \<le> \<lceil>- angle / (2 * pi)\<rceil>"
    by (simp add: ceiling_le_iff[symmetric] less_ceiling_iff)
  moreover have "\<lceil>- angle / (2 * pi) - 1\<rceil> = \<lceil>- angle / (2 * pi)\<rceil> - 1" by simp
  ultimately have m: "nat \<lceil>- angle / (2 * pi) - 1\<rceil> < nat \<lceil>- angle / (2 * pi)\<rceil>" by simp
  have "- (angle + 2 * pi) / (2 * pi) = - angle / (2 * pi) - 1"
    by (simp add: field_simps)
  then have "nat \<lceil>- (angle + 2 * pi) / (2 * pi)\<rceil> < nat \<lceil>- angle / (2 * pi)\<rceil>"
    using m by (simp only:)
  then show "(angle + 2 * pi, angle) \<in> measure (\<lambda>a. nat \<lceil>- a / (2 * pi)\<rceil>)"
    by (simp only: in_measure)
qed

function wrapDown :: "real \<Rightarrow> real" where
  "wrapDown angle = (if angle > 2 * pi then wrapDown (angle - 2 * pi) else angle)"
  by pat_completeness auto
termination
proof (relation "measure (\<lambda>a. nat \<lceil>a / (2 * pi)\<rceil>)")
  show "wf (measure (\<lambda>a. nat \<lceil>a / (2 * pi)\<rceil>))" by simp
next
  fix angle :: real
  assume "2 * pi < angle"
  then have "0 < angle" using pi_gt_zero by linarith
  then have p: "0 < angle / (2 * pi)" by (simp add: divide_pos_pos)
  then have "1 \<le> \<lceil>angle / (2 * pi)\<rceil>"
    by (simp add: ceiling_le_iff[symmetric] less_ceiling_iff)
  moreover have "\<lceil>angle / (2 * pi) - 1\<rceil> = \<lceil>angle / (2 * pi)\<rceil> - 1" by simp
  ultimately have m: "nat \<lceil>angle / (2 * pi) - 1\<rceil> < nat \<lceil>angle / (2 * pi)\<rceil>" by simp
  have "(angle - 2 * pi) / (2 * pi) = angle / (2 * pi) - 1"
    by (simp add: field_simps)
  then have "nat \<lceil>(angle - 2 * pi) / (2 * pi)\<rceil> < nat \<lceil>angle / (2 * pi)\<rceil>"
    using m by (simp only:)
  then show "(angle - 2 * pi, angle) \<in> measure (\<lambda>a. nat \<lceil>a / (2 * pi)\<rceil>)"
    by (simp only: in_measure)
qed

text \<open>
  With three or more circles: mirror the circles at the line through the first two when the
  third lies on the far side.
\<close>

definition mirrorCircles :: "store \<Rightarrow> addr list \<Rightarrow> real jsvalue \<Rightarrow> store" where
  "mirrorCircles h circles orientation =
     (if length circles > 2 then
        let angle = wrapDown (wrapUp
                      (atan2 (circle_x (h ! (circles ! 2))) (circle_y (h ! (circles ! 2)))
                         - orZero orientation))
        in if angle > pi then
             let slope = circle_y (h ! (circles ! 1)) / (1 / 10 ^ 10 + circle_x (h ! (circles ! 1)))
             in fold (\<lambda>a h.
                        let d = (circle_x (h ! a) + slope * circle_y (h ! a)) / (1 + slope * slope)
                        in h[a := (h ! a)\<lparr>circle_x := 2 * d - circle_x (h ! a),
                                            circle_y := 2 * d * slope - circle_y (h ! a)\<rparr>])
                  circles h
           else h
      else h)"

text \<open>
  \<^verbatim>\<open>orientateCircles(circles, orientation, orientationOrder)\<close>: the array is sorted in place
  and the circle objects are assigned to; the result is the store and the array afterwards.
\<close>

definition orientateCircles ::
  "store \<Rightarrow> addr list \<Rightarrow> real jsvalue \<Rightarrow> (circle \<Rightarrow> circle \<Rightarrow> real) jsvalue \<Rightarrow> store \<times> addr list" where
  "orientateCircles h circles0 orientation orientationOrder =
     (let circles = sortCircles h circles0 orientationOrder;
          h1 = shiftCircles h circles;
          h2 = nudgeSubset h1 circles;
          h3 = rotateCircles h2 circles orientation;
          h4 = mirrorCircles h3 circles orientation
      in (h4, circles))"

section \<open>Disjoint clusters: disjointCluster\<close>

text \<open>
  \<^verbatim>\<open>find(circle)\<close> with path compression. The recursion follows the \<^verbatim>\<open>parent\<close>
  references; the first argument bounds its depth, and \<open>None\<close> is the exhausted call stack
  (nothing has been assigned to at that point, the assignments happen on the way back).
\<close>

fun find :: "nat \<Rightarrow> store \<Rightarrow> addr option \<Rightarrow> (store \<times> addr option) option" where
  "find 0 h c = None"
| "find (Suc n) h None = Some (h, None)"
| "find (Suc n) h (Some a) =
     (if circle_parent (h ! a) \<noteq> Some a then
        (case find n h (circle_parent (h ! a)) of
           None \<Rightarrow> None
         | Some (h', r) \<Rightarrow> Some (h'[a := (h' ! a)\<lparr>circle_parent := r\<rparr>], r))
      else Some (h, circle_parent (h ! a)))"

text \<open>
  A chain of parents without a cycle visits every object at most once, so a depth of the
  number of objects plus one is exhausted only by a cycle, where the code does not return
  either.
\<close>

definition findRoot :: "store \<Rightarrow> addr \<Rightarrow> (store \<times> addr option) option" where
  "findRoot h a = find (Suc (length h)) h (Some a)"

definition union :: "store \<Rightarrow> addr \<Rightarrow> addr \<Rightarrow> store option" where
  "union h x y =
     (case findRoot h x of
        None \<Rightarrow> None
      | Some (h1, xRoot) \<Rightarrow>
          (case findRoot h1 y of
             None \<Rightarrow> None
           | Some (h2, yRoot) \<Rightarrow>
               (case xRoot of
                  None \<Rightarrow> Some h2
                | Some xr \<Rightarrow> Some (h2[xr := (h2 ! xr)\<lparr>circle_parent := yRoot\<rparr>]))))"

text \<open>One round of the double loop over the pairs \<open>i < j\<close>; \<open>Inl\<close> once a call has thrown.\<close>

definition unionStep :: "addr \<times> addr \<Rightarrow> store \<times> error option \<Rightarrow> store \<times> error option" where
  "unionStep p st =
     (case snd st of
        Some e \<Rightarrow> st
      | None \<Rightarrow>
          let h = fst st; c1 = fst p; c2 = snd p;
              maxDistance = circle_radius (h ! c1) + circle_radius (h ! c2)
          in if distance (centre (h ! c1)) (centre (h ! c2)) + 1 / 10 ^ 10 < maxDistance
             then (case union h c2 c1 of None \<Rightarrow> (h, Some RangeError) | Some h' \<Rightarrow> (h', None))
             else st)"

text \<open>
  One round of the grouping loop: the circle is pushed on the cluster named by the id of its
  root; a root id that is the empty string is skipped (\<^verbatim>\<open>if (!setid) continue\<close>).
\<close>

definition groupStep ::
  "addr \<Rightarrow> store \<times> addr list jsobject \<times> error option \<Rightarrow> store \<times> addr list jsobject \<times> error option" where
  "groupStep a st =
     (case snd (snd st) of
        Some e \<Rightarrow> st
      | None \<Rightarrow>
          (case findRoot (fst st) a of
             None \<Rightarrow> (fst st, fst (snd st), Some RangeError)
           | Some (h, parentCircle) \<Rightarrow>
               (case parentCircle of
                  None \<Rightarrow> (h, fst (snd st), None)
                | Some r \<Rightarrow>
                    (case circle_parent (h ! r) of
                       None \<Rightarrow> (h, fst (snd st), None)
                     | Some q \<Rightarrow>
                         let setid = circle_setid (h ! q); clusters = fst (snd st)
                         in if setid = [] then (h, clusters, None)
                            else (h, recSet clusters setid
                                       ((case recGet clusters setid of None \<Rightarrow> [] | Some cl \<Rightarrow> cl) @ [a]),
                                  None)))))"

definition disjointCluster :: "store \<Rightarrow> addr list \<Rightarrow> store \<times> (error + addr list list)" where
  "disjointCluster h circles =
     (let h1 = fold (\<lambda>a h. h[a := (h ! a)\<lparr>circle_parent := Some a\<rparr>]) circles h;
          st2 = fold unionStep (idPairs circles) (h1, None)
      in case snd st2 of
           Some e \<Rightarrow> (fst st2, Inl e)
         | None \<Rightarrow>
             let st3 = fold groupStep circles (fst st2, [], None)
             in (case snd (snd st3) of
                   Some e \<Rightarrow> (fst st3, Inl e)
                 | None \<Rightarrow>
                     let h4 = fold (\<lambda>a h. h[a := (h ! a)\<lparr>circle_parent := None\<rparr>]) circles (fst st3)
                     in (h4, Inr (map snd (objectEntries (fst (snd st3)))))))"

section \<open>Normalization and packing: normalizeSolution\<close>

text \<open>A cluster: an array of circles with the \<^verbatim>\<open>size\<close> and \<^verbatim>\<open>bounds\<close> properties set on it.\<close>

record cluster =
  cl_circles :: "addr list"
  cl_size :: real
  cl_bounds :: "bounds option"

text \<open>The copying loop: \<^verbatim>\<open>circles.push({ ...previous, setid: setid })\<close> makes a new object.\<close>

definition copyStep :: "store \<Rightarrow> string \<times> addr \<Rightarrow> store \<times> addr list \<Rightarrow> store \<times> addr list" where
  "copyStep h0 e st =
     (fst st @ [(h0 ! snd e)\<lparr>circle_setid := fst e\<rparr>], snd st @ [length (fst st)])"

text \<open>Orientate one cluster and record its bounding box and the area of the box.\<close>

definition orientStep ::
  "real jsvalue \<Rightarrow> (circle \<Rightarrow> circle \<Rightarrow> real) jsvalue \<Rightarrow> addr list \<Rightarrow> store \<times> cluster list \<Rightarrow>
   store \<times> cluster list" where
  "orientStep orientation orientationOrder cl st =
     (let r = orientateCircles (fst st) cl orientation orientationOrder;
          bounds = getBoundingBox (map (\<lambda>a. fst r ! a) (snd r));
          size = (case bounds of
                    None \<Rightarrow> 0
                  | Some b \<Rightarrow> (range_max (xRange b) - range_min (xRange b)) *
                              (range_max (yRange b) - range_min (yRange b)))
      in (fst r, snd st @ [\<lparr>cl_circles = snd r, cl_size = size, cl_bounds = bounds\<rparr>]))"

text \<open>The comparator of \<^verbatim>\<open>clusters.sort\<close>.\<close>

definition clusterOrder :: "cluster \<Rightarrow> cluster \<Rightarrow> real" where
  "clusterOrder a b = (if cl_size a = 0 \<or> cl_size b = 0 then 0 else cl_size b - cl_size a)"

text \<open>
  The state of the packing loop: the store, the array \<^verbatim>\<open>circles\<close> that \<^verbatim>\<open>addCluster\<close>
  pushes on, and \<^verbatim>\<open>returnBounds\<close>.
\<close>

record packing =
  pk_store :: store
  pk_circles :: "addr list"
  pk_returnBounds :: bounds

definition addCluster :: "real \<Rightarrow> packing \<Rightarrow> cluster option \<Rightarrow> bool \<Rightarrow> bool \<Rightarrow> packing" where
  "addCluster spacing st cl right bottom =
     (case cl of
        None \<Rightarrow> st
      | Some cluster \<Rightarrow>
          (case cl_bounds cluster of
             None \<Rightarrow> st
           | Some bounds \<Rightarrow>
               if cl_size cluster = 0 then st
               else
                 let rb = pk_returnBounds st;
                     xOffset =
                       (if right then range_max (xRange rb) - range_min (xRange bounds) + spacing
                        else
                          let off = range_max (xRange rb) - range_max (xRange bounds);
                              centreing = (range_max (xRange bounds) - range_min (xRange bounds)) / 2
                                          - (range_max (xRange rb) - range_min (xRange rb)) / 2
                          in if centreing < 0 then off + centreing else off);
                     yOffset =
                       (if bottom then range_max (yRange rb) - range_min (yRange bounds) + spacing
                        else
                          let off = range_max (yRange rb) - range_max (yRange bounds);
                              centreing = (range_max (yRange bounds) - range_min (yRange bounds)) / 2
                                          - (range_max (yRange rb) - range_min (yRange rb)) / 2
                          in if centreing < 0 then off + centreing else off)
                 in fold (\<lambda>a s.
                            s\<lparr>pk_store := (pk_store s)[a := (pk_store s ! a)
                                  \<lparr>circle_x := circle_x (pk_store s ! a) + xOffset,
                                   circle_y := circle_y (pk_store s ! a) + yOffset\<rparr>],
                              pk_circles := pk_circles s @ [a]\<rparr>)
                      (cl_circles cluster) st))"

text \<open>
  The loop \<^verbatim>\<open>while (index < clusters.length)\<close> from \<^verbatim>\<open>index = 1\<close> in steps of three, over
  the clusters after the first. \<^verbatim>\<open>getBoundingBox(circles)\<close> is never called on an empty
  array here, since \<^verbatim>\<open>circles\<close> holds the circles of every cluster.
\<close>

definition refreshBounds :: "packing \<Rightarrow> packing" where
  "refreshBounds st =
     (case getBoundingBox (map (\<lambda>a. pk_store st ! a) (pk_circles st)) of
        None \<Rightarrow> st
      | Some b \<Rightarrow> st\<lparr>pk_returnBounds := b\<rparr>)"

fun packClusters :: "real \<Rightarrow> packing \<Rightarrow> cluster list \<Rightarrow> packing" where
  "packClusters spacing st [] = st"
| "packClusters spacing st [c1] =
     refreshBounds (addCluster spacing (addCluster spacing (addCluster spacing st
       (Some c1) True False) None False True) None True True)"
| "packClusters spacing st [c1, c2] =
     refreshBounds (addCluster spacing (addCluster spacing (addCluster spacing st
       (Some c1) True False) (Some c2) False True) None True True)"
| "packClusters spacing st (c1 # c2 # c3 # rest) =
     packClusters spacing
       (refreshBounds (addCluster spacing (addCluster spacing (addCluster spacing st
          (Some c1) True False) (Some c2) False True) (Some c3) True True))
       rest"

definition normalizeSolution ::
  "store \<Rightarrow> circleRefs \<Rightarrow> real jsvalue \<Rightarrow> (circle \<Rightarrow> circle \<Rightarrow> real) jsvalue \<Rightarrow>
   store \<times> (error + circleRefs)" where
  "normalizeSolution h solution orientation0 orientationOrder =
     (let orientation = (if orientation0 = Null then Defined (pi / 2) else orientation0);
          copied = fold (copyStep h) (objectEntries solution) (h, []);
          circles = snd copied
      in case disjointCluster (fst copied) circles of
           (h1, Inl e) \<Rightarrow> (h1, Inl e)
         | (h1, Inr groups) \<Rightarrow>
             let oriented = fold (orientStep orientation orientationOrder) groups (h1, []);
                 clusters = sortBy clusterOrder (snd oriented)
             in (case clusters of
                   [] \<Rightarrow> (fst oriented, Inl TypeError)
                 | largestCluster # others \<Rightarrow>
                     (case cl_bounds largestCluster of
                        None \<Rightarrow> (fst oriented, Inl TypeError)
                      | Some returnBounds \<Rightarrow>
                          let spacing = (range_max (xRange returnBounds)
                                         - range_min (xRange returnBounds)) / 50;
                              packed = packClusters spacing
                                         \<lparr>pk_store = fst oriented, pk_circles = circles,
                                          pk_returnBounds = returnBounds\<rparr> others
                          in (pk_store packed,
                              Inr (fold (\<lambda>a ret. recSet ret (circle_setid (pk_store packed ! a)) a)
                                     (pk_circles packed) [])))))"

text \<open>
  Two predicates on stores. \<open>writesWithin S h h'\<close>: the store \<open>h'\<close> has the objects of \<open>h\<close>, and
  only objects at addresses in \<open>S\<close> differ. \<open>parentsWithin S h\<close>: the objects at the addresses in
  \<open>S\<close> exist and their \<^verbatim>\<open>parent\<close> references stay in \<open>S\<close>.
\<close>

definition writesWithin :: "addr set \<Rightarrow> store \<Rightarrow> store \<Rightarrow> bool" where
  "writesWithin S h h' = (length h' = length h \<and> (\<forall>a. a \<notin> S \<longrightarrow> h' ! a = h ! a))"

definition parentsWithin :: "addr set \<Rightarrow> store \<Rightarrow> bool" where
  "parentsWithin S h =
     (\<forall>a\<in>S. a < length h \<and> (\<forall>p. circle_parent (h ! a) = Some p \<longrightarrow> p \<in> S))"

text \<open>A reference that is \<^verbatim>\<open>undefined\<close> or an address in \<open>S\<close>; clusters whose circles are in \<open>S\<close>.\<close>

definition refWithin :: "addr set \<Rightarrow> addr option \<Rightarrow> bool" where
  "refWithin S c = (case c of None \<Rightarrow> True | Some a \<Rightarrow> a \<in> S)"

definition groupsWithin :: "addr set \<Rightarrow> addr list jsobject \<Rightarrow> bool" where
  "groupsWithin S clusters = (\<forall>e\<in>set clusters. set (snd e) \<subseteq> S)"

text \<open>
  A record that refers only to objects made since the store was \<open>h\<close>: every address in it is
  an address of \<open>h'\<close> beyond the end of \<open>h\<close>.
\<close>

definition freshRefs :: "store \<Rightarrow> store \<Rightarrow> circleRefs \<Rightarrow> bool" where
  "freshRefs h h' refs = list_all (\<lambda>e. length h \<le> snd e \<and> snd e < length h') refs"

section \<open>Distance inversion: distanceFromIntersectArea\<close>

text \<open>
  Modelled from the spec: \<^verbatim>\<open>bisect\<close> is imported from the package \<^verbatim>\<open>fmin\<close>, which is not
  among the sources; the spec says that the distance is found by bisection on the interval
  from 0 to \<open>r1 + r2\<close>. The definition is the bisection of that package with its defaults, a
  tolerance of \<open>1e-10\<close> and at most 100 rounds: it throws when the function has the same
  strict sign at both ends, returns an end where the function is zero, and otherwise halves
  the interval, keeping the half whose left end has the sign of \<open>f a\<close>, until the half-width is
  below the tolerance or the midpoint is a zero.
\<close>

definition SMALL :: real where
  "SMALL = 1 / 10 ^ 10"

fun bisectLoop :: "nat \<Rightarrow> (real \<Rightarrow> real) \<Rightarrow> real \<Rightarrow> real \<Rightarrow> real \<Rightarrow> real" where
  "bisectLoop 0 f fA a delta = a + delta"
| "bisectLoop (Suc n) f fA a delta0 =
     (let delta = delta0 / 2;
          mid = a + delta;
          fMid = f mid;
          a' = (if fMid * fA \<ge> 0 then mid else a)
      in if \<bar>delta\<bar> < SMALL \<or> fMid = 0 then mid
         else bisectLoop n f fA a' delta)"

definition bisect :: "(real \<Rightarrow> real) \<Rightarrow> real \<Rightarrow> real \<Rightarrow> error + real" where
  "bisect f a b =
     (let fA = f a; fB = f b; delta = b - a
      in if fA * fB > 0 then Inl BisectSigns
         else if fA = 0 then Inr a
         else if fB = 0 then Inr b
         else Inr (bisectLoop 100 f fA a delta))"

text \<open>\<^verbatim>\<open>distanceFromIntersectArea(r1, r2, overlap)\<close>.\<close>

definition distanceFromIntersectArea :: "real \<Rightarrow> real \<Rightarrow> real \<Rightarrow> error + real" where
  "distanceFromIntersectArea r1 r2 overlap =
     (if min r1 r2 * min r1 r2 * pi \<le> overlap + SMALL then Inr \<bar>r1 - r2\<bar>
      else bisect (\<lambda>distance. circleOverlap r1 r2 distance - overlap) 0 (r1 + r2))"

text \<open>
  The lens formula in terms of the distance \<open>h\<close> from a centre to the common chord:
  \<open>segmentArea r h\<close> is \<open>circleArea r (r - h)\<close>, \<open>chordOffset r1 r2 d\<close> is that distance for
  the first circle, and \<open>lensArea\<close> is the third branch of \<open>circleOverlap\<close>.
\<close>

definition segmentArea :: "real \<Rightarrow> real \<Rightarrow> real" where
  "segmentArea r h = r * r * arccos (h / r) - h * sqrt (r * r - h * h)"

definition chordOffset :: "real \<Rightarrow> real \<Rightarrow> real \<Rightarrow> real" where
  "chordOffset r1 r2 d = (d * d - r2 * r2 + r1 * r1) / (2 * d)"

definition lensArea :: "real \<Rightarrow> real \<Rightarrow> real \<Rightarrow> real" where
  "lensArea r1 r2 d = segmentArea r1 (chordOffset r1 r2 d) + segmentArea r2 (chordOffset r2 r1 d)"

section \<open>Greedy initial layout: greedyLayout\<close>

text \<open>\<^verbatim>\<open>type OverLap = { set; size; weight }\<close>\<close>

record overLap =
  ov_set :: setid
  ov_size :: real
  ov_weight :: real

text \<open>
  The first loop: a circle for every single-set Area, far away at \<open>(1e10, 1e10)\<close>, and an
  empty overlap list. \<^verbatim>\<open>Object.keys(circles).length\<close> is read before the assignment.
\<close>

definition initStep ::
  "area \<Rightarrow> circleRecord \<times> overLap list jsobject \<Rightarrow> circleRecord \<times> overLap list jsobject" where
  "initStep ar st =
     (case area_sets ar of
        [sid] \<Rightarrow>
          (recSet (fst st) sid
             \<lparr>circle_x = 10 ^ 10, circle_y = 10 ^ 10, circle_rowid = Some (length (fst st)),
              circle_size = Some (area_size ar), circle_radius = sqrt (area_size ar / pi),
              circle_parent = None, circle_setid = sid\<rparr>,
           recSet (snd st) sid [])
      | _ \<Rightarrow> st)"

text \<open>\<^verbatim>\<open>!circle.size\<close>: the size is missing or zero.\<close>

definition noSize :: "circle \<Rightarrow> bool" where
  "noSize c = (case circle_size c of None \<Rightarrow> True | Some s \<Rightarrow> s = 0)"

text \<open>\<^verbatim>\<open>setOverlaps[k]?.push(v)\<close>.\<close>

definition pushOverlap :: "overLap list jsobject \<Rightarrow> setid \<Rightarrow> overLap \<Rightarrow> overLap list jsobject" where
  "pushOverlap so k v = (case recGet so k of None \<Rightarrow> so | Some l \<Rightarrow> recSet so k (l @ [v]))"

text \<open>
  One round of the second loop, over the two-set Areas. Reading \<^verbatim>\<open>leftCircle.size\<close> of a
  set without a circle throws; in \<^verbatim>\<open>!leftCircle.size || !rightCircle.size\<close> the right
  circle is read only when the left one has a size. An Area with a circle of no size is
  skipped.
\<close>

definition overlapStep ::
  "circleRecord \<Rightarrow> area \<Rightarrow> overLap list jsobject \<times> error option \<Rightarrow> overLap list jsobject \<times> error option" where
  "overlapStep circles current st =
     (case snd st of
        Some e \<Rightarrow> st
      | None \<Rightarrow>
          let left = area_sets current ! 0; right = area_sets current ! 1
          in case recGet circles left of
               None \<Rightarrow> (fst st, Some TypeError)
             | Some leftCircle \<Rightarrow>
                 if noSize leftCircle then st
                 else
                   (case recGet circles right of
                      None \<Rightarrow> (fst st, Some TypeError)
                    | Some rightCircle \<Rightarrow>
                        if noSize rightCircle then st
                        else
                          let weight =
                                (if area_size current + SMALL \<ge>
                                      min (the (circle_size leftCircle)) (the (circle_size rightCircle))
                                 then 0 else areaWeight current);
                              so1 = pushOverlap (fst st) left
                                      \<lparr>ov_set = right, ov_size = area_size current, ov_weight = weight\<rparr>;
                              so2 = pushOverlap so1 right
                                      \<lparr>ov_set = left, ov_size = area_size current, ov_weight = weight\<rparr>
                          in (so2, None)))"

text \<open>The list of sets with their summed weighted overlaps, sorted, largest first.\<close>

definition mostOverlappedOf :: "overLap list jsobject \<Rightarrow> (setid \<times> real) list" where
  "mostOverlappedOf setOverlaps =
     sortBy (\<lambda>a b. snd b - snd a)
       (map (\<lambda>e. (fst e, fold (\<lambda>overlap size. size + ov_size overlap * ov_weight overlap) (snd e) 0))
          (objectEntries setOverlaps))"

text \<open>\<^verbatim>\<open>positionSet(point, index)\<close>: on the circles and the set of positioned ids.\<close>

definition positionSet ::
  "circleRecord \<times> setid set \<Rightarrow> real \<times> real \<Rightarrow> setid \<Rightarrow> circleRecord \<times> setid set" where
  "positionSet st point index =
     ((case recGet (fst st) index of
         None \<Rightarrow> fst st
       | Some circle \<Rightarrow> recSet (fst st) index (circle\<lparr>circle_x := fst point, circle_y := snd point\<rparr>)),
      insert index (snd st))"

text \<open>
  The candidate points of one set: for every positioned neighbour the four axis-aligned
  points at the required distance and, with every later neighbour, the intersection points
  of the two distance circles. \<open>cci\<close> is \<^verbatim>\<open>circleCircleIntersection\<close>, taken as a parameter on
  centres and radii.
\<close>

type_synonym disc = "real \<times> real \<times> real"

fun extraPoints ::
  "(disc \<Rightarrow> disc \<Rightarrow> (real \<times> real) list) \<Rightarrow> circleRecord \<Rightarrow> circle \<Rightarrow> circle \<Rightarrow> real \<Rightarrow> overLap list \<Rightarrow>
   error + (real \<times> real) list" where
  "extraPoints cci circles this p1 d1 [] = Inr []"
| "extraPoints cci circles this p1 d1 (o2 # rest) =
     (case recGet circles (ov_set o2) of
        None \<Rightarrow> Inl TypeError
      | Some p2 \<Rightarrow>
          (case distanceFromIntersectArea (circle_radius this) (circle_radius p2) (ov_size o2) of
             Inl e \<Rightarrow> Inl e
           | Inr d2 \<Rightarrow>
               (case extraPoints cci circles this p1 d1 rest of
                  Inl e \<Rightarrow> Inl e
                | Inr others \<Rightarrow>
                    Inr (cci (circle_x p1, circle_y p1, d1) (circle_x p2, circle_y p2, d2) @ others))))"

fun candidatePoints ::
  "(disc \<Rightarrow> disc \<Rightarrow> (real \<times> real) list) \<Rightarrow> circleRecord \<Rightarrow> circle \<Rightarrow> overLap list \<Rightarrow>
   error + (real \<times> real) list" where
  "candidatePoints cci circles this [] = Inr []"
| "candidatePoints cci circles this (item # rest) =
     (case recGet circles (ov_set item) of
        None \<Rightarrow> candidatePoints cci circles this rest
      | Some p1 \<Rightarrow>
          (case distanceFromIntersectArea (circle_radius this) (circle_radius p1) (ov_size item) of
             Inl e \<Rightarrow> Inl e
           | Inr d1 \<Rightarrow>
               (case extraPoints cci circles this p1 d1 rest of
                  Inl e \<Rightarrow> Inl e
                | Inr extra \<Rightarrow>
                    (case candidatePoints cci circles this rest of
                       Inl e \<Rightarrow> Inl e
                     | Inr others \<Rightarrow>
                         Inr ([(circle_x p1 + d1, circle_y p1), (circle_x p1 - d1, circle_y p1),
                               (circle_x p1, circle_y p1 + d1), (circle_x p1, circle_y p1 - d1)]
                              @ extra @ others)))))"

text \<open>
  The search for the candidate of least loss: the circle is moved to each candidate in turn
  and the loss of the two-set Areas is taken; the state is the least loss so far with its
  point, or the error that the loss function threw.
\<close>

definition tryPoint ::
  "(circle list \<Rightarrow> real) \<Rightarrow> area list \<Rightarrow> circleRecord \<Rightarrow> setid \<Rightarrow> circle \<Rightarrow> real \<times> real \<Rightarrow>
   error + real \<times> (real \<times> real) \<Rightarrow> error + real \<times> (real \<times> real)" where
  "tryPoint ia areas circles setIndex this point st =
     (case st of
        Inl e \<Rightarrow> Inl e
      | Inr best \<Rightarrow>
          (case lossFunction ia
                  (recSet circles setIndex (this\<lparr>circle_x := fst point, circle_y := snd point\<rparr>))
                  areas of
             Inl e \<Rightarrow> Inl e
           | Inr localLoss \<Rightarrow> Inr (if localLoss < fst best then (localLoss, point) else best)))"

text \<open>
  One round of the placement loop, for the set \<open>setIndex\<close>. The empty string as id is falsy,
  so \<^verbatim>\<open>overlap\<close> is \<^verbatim>\<open>null\<close> for it and the second guard throws.
\<close>

definition placeStep ::
  "(circle list \<Rightarrow> real) \<Rightarrow> (disc \<Rightarrow> disc \<Rightarrow> (real \<times> real) list) \<Rightarrow> area list \<Rightarrow>
   overLap list jsobject \<Rightarrow> setid \<Rightarrow> (circleRecord \<times> setid set) \<times> error option \<Rightarrow>
   (circleRecord \<times> setid set) \<times> error option" where
  "placeStep ia cci areas setOverlaps setIndex st =
     (case snd st of
        Some e \<Rightarrow> st
      | None \<Rightarrow>
          if setIndex = [] then (fst st, Some MissingPairwiseOverlap)
          else
            (case recGet setOverlaps setIndex of
               None \<Rightarrow> (fst st, Some MissingPairwiseOverlap)
             | Some overlaps \<Rightarrow>
                 let circles = fst (fst st); positioned = snd (fst st);
                     overlap = sortBy (\<lambda>a b. ov_size b - ov_size a)
                                 (filter (\<lambda>element. ov_set element \<in> positioned) overlaps)
                 in if overlap = [] then (fst st, Some MissingPairwiseOverlap)
                    else
                      (case recGet circles setIndex of
                         None \<Rightarrow> (fst st, Some TypeError)
                       | Some this \<Rightarrow>
                           (case candidatePoints cci circles this overlap of
                              Inl e \<Rightarrow> (fst st, Some e)
                            | Inr [] \<Rightarrow> (fst st, Some TypeError)
                            | Inr (p # points) \<Rightarrow>
                                (case fold (tryPoint ia areas circles setIndex this) (p # points)
                                        (Inr (10 ^ 50, p)) of
                                   Inl e \<Rightarrow> (fst st, Some e)
                                 | Inr best \<Rightarrow>
                                     (positionSet (circles, positioned) (snd best) setIndex,
                                      None))))))"

definition greedyLayout ::
  "(circle list \<Rightarrow> real) \<Rightarrow> (disc \<Rightarrow> disc \<Rightarrow> (real \<times> real) list) \<Rightarrow> area list \<Rightarrow>
   error + circleRecord" where
  "greedyLayout ia cci areas0 =
     (let st1 = fold initStep areas0 ([], []);
          circles = fst st1;
          areas = filter (\<lambda>a. length (area_sets a) = 2) areas0;
          st2 = fold (overlapStep circles) areas (snd st1, None)
      in case snd st2 of
           Some e \<Rightarrow> Inl e
         | None \<Rightarrow>
             let setOverlaps = fst st2;
                 mostOverlapped = mostOverlappedOf setOverlaps;
                 st3 = positionSet (circles, {}) (0, 0)
                         (case mostOverlapped of [] \<Rightarrow> [] | m # rest \<Rightarrow> fst m);
                 st4 = fold (placeStep ia cci areas setOverlaps) (map fst (tl mostOverlapped))
                         (st3, None)
             in (case snd st4 of Some e \<Rightarrow> Inl e | None \<Rightarrow> Inr (fst (fst st4))))"

text \<open>
  Every circle of a record has a size other than 0; the overlap list of \<open>k\<close> has an entry for
  the set \<open>n\<close>.
\<close>

definition sizedCircles :: "circleRecord \<Rightarrow> bool" where
  "sizedCircles cs = (\<forall>e\<in>set cs. \<not> noSize (snd e))"

definition hasNeighbour :: "overLap list jsobject \<Rightarrow> setid \<Rightarrow> setid \<Rightarrow> bool" where
  "hasNeighbour so k n = (\<exists>l. recGet so k = Some l \<and> (\<exists>e\<in>set l. ov_set e = n))"

section \<open>Seeded random numbers: createRandomGenerator\<close>

text \<open>
  The generator (Mulberry32) keeps a 32-bit state. \<^verbatim>\<open>| 0\<close> and \<^verbatim>\<open>Math.imul\<close> wrap to 32
  bits, \<^verbatim>\<open>>>>\<close> shifts the unsigned value, and the result is the unsigned value of the last
  word divided by \<open>2^32\<close>.
\<close>

definition nextRandom :: "32 word \<Rightarrow> real \<times> 32 word" where
  "nextRandom seed0 =
     (let seed = seed0 + 0x6d2b79f5;
          t1 = (seed XOR drop_bit 15 seed) * (1 OR seed);
          t = ((t1 XOR drop_bit 7 t1) * (61 OR t1)) XOR t1
      in (real (unat (t XOR drop_bit 14 t)) / 4294967296, seed))"

text \<open>\<^verbatim>\<open>zeros(n).map(() => getRand())\<close>: \<open>n\<close> numbers in a row, and the state after them.\<close>

fun randoms :: "nat \<Rightarrow> 32 word \<Rightarrow> real list \<times> 32 word" where
  "randoms 0 g = ([], g)"
| "randoms (Suc n) g =
     (let r = nextRandom g; rest = randoms n (snd r) in (fst r # fst rest, snd rest))"

text \<open>
  \<^verbatim>\<open>(x * 2 ** 32) >>> 0\<close>: the number is truncated towards zero and taken modulo \<open>2^32\<close>.
\<close>

definition toUint32 :: "real \<Rightarrow> 32 word" where
  "toUint32 x = word_of_int (if 0 \<le> x then \<lfloor>x\<rfloor> else \<lceil>x\<rceil>)"

text \<open>
  \<^verbatim>\<open>Math.random()\<close> is the only source of values that the arguments do not determine. Its
  results are a parameter \<open>rnd\<close>, the sequence of numbers that the calls would return.
\<close>

type_synonym randomSource = "nat \<Rightarrow> real"

section \<open>Constrained-MDS initial layout: constrainedMDSLayout\<close>

text \<open>The loop that numbers the single-set Areas; an empty id gets no row number.\<close>

definition rowStep :: "area \<Rightarrow> area list \<times> nat jsobject \<Rightarrow> area list \<times> nat jsobject" where
  "rowStep ar st =
     (if length (area_sets ar) = 1
      then (fst st @ [ar],
            if area_sets ar ! 0 \<noteq> [] then recSet (snd st) (area_sets ar ! 0) (length (fst st))
            else snd st)
      else st)"

text \<open>\<^verbatim>\<open>m[i][j] = m[j][i] = v\<close> on a matrix of rows.\<close>

definition setSym :: "real list list \<Rightarrow> nat \<Rightarrow> nat \<Rightarrow> real \<Rightarrow> real list list" where
  "setSym m i j v =
     (let m1 = m[j := (m ! j)[i := v]] in m1[i := (m1 ! i)[j := v]])"

text \<open>One round of \<^verbatim>\<open>getDistanceMatrices\<close>, for a two-set Area.\<close>

definition matrixStep ::
  "area list \<Rightarrow> nat jsobject \<Rightarrow> area \<Rightarrow> (real list list \<times> real list list) \<times> error option \<Rightarrow>
   (real list list \<times> real list list) \<times> error option" where
  "matrixStep sets setids current st =
     (case snd st of
        Some e \<Rightarrow> st
      | None \<Rightarrow>
          (case (recGet setids (area_sets current ! 0), recGet setids (area_sets current ! 1)) of
             (Some left, Some right) \<Rightarrow>
               let r1 = sqrt (area_size (sets ! left) / pi);
                   r2 = sqrt (area_size (sets ! right) / pi)
               in (case distanceFromIntersectArea r1 r2 (area_size current) of
                     Inl e \<Rightarrow> (fst st, Some e)
                   | Inr dst \<Rightarrow>
                       let c = (if area_size current + 1 / 10 ^ 10 \<ge>
                                     min (area_size (sets ! left)) (area_size (sets ! right))
                                then 1
                                else if area_size current \<le> 1 / 10 ^ 10 then - 1 else 0)
                       in ((setSym (fst (fst st)) left right dst,
                            setSym (snd (fst st)) left right c), None))
           | _ \<Rightarrow> st))"

definition getDistanceMatrices ::
  "area list \<Rightarrow> area list \<Rightarrow> nat jsobject \<Rightarrow> error + (real list list \<times> real list list)" where
  "getDistanceMatrices areas sets setids =
     (let zerosM = replicate (length sets) (replicate (length sets) 0);
          st = fold (matrixStep sets setids) (filter (\<lambda>x. length (area_sets x) = 2) areas)
                 ((zerosM, zerosM), None)
      in case snd st of Some e \<Rightarrow> Inl e | None \<Rightarrow> Inr (fst st))"

text \<open>
  \<^verbatim>\<open>constrainedMDSGradient(x, fxprime, distances, constraints)\<close>: the loss, and the
  gradient that the code writes into \<^verbatim>\<open>fxprime\<close>.
\<close>

definition gradientStep ::
  "real list \<Rightarrow> real list list \<Rightarrow> real list list \<Rightarrow> nat \<times> nat \<Rightarrow> real \<times> real list \<Rightarrow> real \<times> real list" where
  "gradientStep x distances constraints p st =
     (let i = fst p; j = snd p;
          xi = x ! (2 * i); yi = x ! (2 * i + 1);
          xj = x ! (2 * j); yj = x ! (2 * j + 1);
          dij = distances ! i ! j;
          constraint = constraints ! i ! j;
          squaredDistance = (xj - xi) * (xj - xi) + (yj - yi) * (yj - yi);
          dst = sqrt squaredDistance;
          delta = squaredDistance - dij * dij
      in if (constraint > 0 \<and> dst \<le> dij) \<or> (constraint < 0 \<and> dst \<ge> dij) then st
         else
           (fst st + 2 * delta * delta,
            (let g = snd st;
                 g1 = g[2 * i := g ! (2 * i) + 4 * delta * (xi - xj)];
                 g2 = g1[2 * i + 1 := g1 ! (2 * i + 1) + 4 * delta * (yi - yj)];
                 g3 = g2[2 * j := g2 ! (2 * j) + 4 * delta * (xj - xi)]
             in g3[2 * j + 1 := g3 ! (2 * j + 1) + 4 * delta * (yj - yi)])))"

definition constrainedMDSGradient ::
  "real list list \<Rightarrow> real list list \<Rightarrow> real list \<Rightarrow> real list \<Rightarrow> real \<times> real list" where
  "constrainedMDSGradient distances constraints x fxprime =
     fold (gradientStep x distances constraints) (idPairs [0 ..< length distances])
       (0, map (\<lambda>v. 0) fxprime)"

text \<open>\<^verbatim>\<open>norm2\<close> of the package fmin: the Euclidean norm of a vector.\<close>

definition norm2 :: "real list \<Rightarrow> real" where
  "norm2 v = sqrt (sum_list (map (\<lambda>a. a * a) v))"

text \<open>
  The optimiser \<^verbatim>\<open>conjugateGradient\<close> of the package fmin is a parameter: a function of the
  objective, the start vector and the parameters that returns the vector found and its loss.
\<close>

type_synonym optimiser =
  "(real list \<Rightarrow> real list \<Rightarrow> real \<times> real list) \<Rightarrow> real list \<Rightarrow> params \<Rightarrow> real list \<times> real"

text \<open>One restart: new random start coordinates, one run, and the better result is kept.\<close>

definition restartStep ::
  "optimiser \<Rightarrow> real list list \<Rightarrow> real list list \<Rightarrow> params \<Rightarrow>
   32 word \<times> (real list \<times> real) option \<Rightarrow> 32 word \<times> (real list \<times> real) option" where
  "restartStep cg distances constraints ps st =
     (let r = randoms (length distances * 2) (fst st);
          current = cg (constrainedMDSGradient distances constraints) (fst r) ps
      in (snd r,
          (case snd st of
             None \<Rightarrow> Some current
           | Some best \<Rightarrow> if snd current < snd best then Some current else Some best)))"

text \<open>The last loop: one circle per single-set Area, from the positions found.\<close>

definition circleStep :: "real list \<Rightarrow> real \<Rightarrow> area \<Rightarrow> nat \<times> circleRecord \<Rightarrow> nat \<times> circleRecord" where
  "circleStep positions nrm ar st =
     (let i = fst st; circles = snd st; setName = area_sets ar ! 0
      in (Suc i,
          recSet circles setName
            \<lparr>circle_x = positions ! (2 * i) * nrm, circle_y = positions ! (2 * i + 1) * nrm,
             circle_rowid = Some (length circles), circle_size = Some (area_size ar),
             circle_radius = sqrt (area_size ar / pi), circle_parent = None,
             circle_setid = setName\<rparr>))"

text \<open>The seed of the generator: \<^verbatim>\<open>((params.seed ?? Math.random()) * 2 ** 32) >>> 0\<close>.\<close>

definition generatorSeed :: "randomSource \<Rightarrow> params \<Rightarrow> 32 word" where
  "generatorSeed rnd ps =
     toUint32 ((case params_seed ps of Some s \<Rightarrow> s | None \<Rightarrow> rnd 0) * 2 ^ 32)"

definition constrainedMDSLayout ::
  "optimiser \<Rightarrow> randomSource \<Rightarrow> area list \<Rightarrow> params \<Rightarrow> error + circleRecord" where
  "constrainedMDSLayout cg rnd areas ps =
     (let restarts = (case params_restarts ps of None \<Rightarrow> 10 | Some n \<Rightarrow> if n = 0 then 10 else n);
          rows = fold rowStep areas ([], []);
          sets = fst rows; setids = snd rows
      in case getDistanceMatrices areas sets setids of
           Inl e \<Rightarrow> Inl e
         | Inr matrices \<Rightarrow>
             let distances0 = fst matrices; constraints = snd matrices;
                 nrm = norm2 (map norm2 distances0) / real (length distances0);
                 distances = map (\<lambda>row. map (\<lambda>v. v / nrm) row) distances0;
                 seed = generatorSeed rnd ps;
                 st = fold (\<lambda>i. restartStep cg distances constraints ps) [0 ..< restarts] (seed, None)
             in (case snd st of
                   None \<Rightarrow> if sets = [] then Inr [] else Inl TypeError
                 | Some best \<Rightarrow> Inr (snd (fold (circleStep (fst best) nrm) sets (0, [])))))"

section \<open>The layout solve: venn\<close>

text \<open>
  The functions that \<^verbatim>\<open>venn\<close> needs from outside the sources: the N-way
  \<^verbatim>\<open>intersectionArea(...).overlap\<close> and \<^verbatim>\<open>circleCircleIntersection\<close> of
  \<^verbatim>\<open>./circle-intersection\<close>, the optimisers \<^verbatim>\<open>conjugateGradient\<close> and \<^verbatim>\<open>nelderMead\<close> of fmin
  (the latter as the function from objective, start vector and parameters to the vector
  found, or to the error that the objective threw), and the collation of
  \<^verbatim>\<open>localeCompare\<close>.
\<close>

record externals =
  ext_intersectionArea :: "circle list \<Rightarrow> real"
  ext_circleCircleIntersection :: "disc \<Rightarrow> disc \<Rightarrow> (real \<times> real) list"
  ext_conjugateGradient :: optimiser
  ext_nelderMead :: "(real list \<Rightarrow> error + real) \<Rightarrow> real list \<Rightarrow> params \<Rightarrow> error + real list"
  ext_localeCompare :: "string \<Rightarrow> string \<Rightarrow> real"

text \<open>The record \<^verbatim>\<open>current\<close> that the objective builds from a coordinate vector.\<close>

definition layoutOf :: "circleRecord \<Rightarrow> setid list \<Rightarrow> real list \<Rightarrow> circleRecord" where
  "layoutOf circles setids vals =
     fold (\<lambda>i current.
             case recGet circles (setids ! i) of
               None \<Rightarrow> current
             | Some circle \<Rightarrow>
                 recSet current (setids ! i)
                   \<lparr>circle_x = vals ! (2 * i), circle_y = vals ! (2 * i + 1),
                    circle_rowid = circle_rowid circle, circle_size = circle_size circle,
                    circle_radius = circle_radius circle, circle_parent = None,
                    circle_setid = setids ! i\<rparr>)
       [0 ..< length setids] []"

text \<open>Writing the solution vector back: \<^verbatim>\<open>circle.x = positions[2 * i]\<close>, \<^verbatim>\<open>circle.y = ...\<close>.\<close>

definition writeBack :: "circleRecord \<Rightarrow> setid list \<Rightarrow> real list \<Rightarrow> circleRecord" where
  "writeBack circles setids positions =
     fold (\<lambda>i cs.
             case recGet cs (setids ! i) of
               None \<Rightarrow> cs
             | Some circle \<Rightarrow>
                 recSet cs (setids ! i)
                   (circle\<lparr>circle_x := positions ! (2 * i), circle_y := positions ! (2 * i + 1)\<rparr>))
       [0 ..< length setids] circles"

definition venn :: "externals \<Rightarrow> randomSource \<Rightarrow> area list \<Rightarrow> params \<Rightarrow> error + circleRecord" where
  "venn ext rnd areas0 parameters0 =
     (let maxIterations =
            (case params_maxIterations parameters0 of
               None \<Rightarrow> 500 | Some n \<Rightarrow> if n = 0 then 500 else n);
          seed = (case params_seed parameters0 of Some s \<Rightarrow> s | None \<Rightarrow> rnd 0);
          rnd1 = (case params_seed parameters0 of Some s \<Rightarrow> rnd | None \<Rightarrow> (\<lambda>n. rnd (Suc n)));
          parameters = parameters0\<lparr>params_maxIterations := Some maxIterations,
                                    params_seed := Some seed\<rparr>;
          greedy = (\<lambda>areas ps. greedyLayout (ext_intersectionArea ext)
                                  (ext_circleCircleIntersection ext) areas);
          mds = constrainedMDSLayout (ext_conjugateGradient ext) rnd1;
          initialLayout =
            (case params_layout parameters of
               Some Greedy \<Rightarrow> greedy
             | Some MDS \<Rightarrow> mds
             | _ \<Rightarrow> bestInitialLayout greedy mds (lossFunction (ext_intersectionArea ext)));
          areas = addMissingAreas (ext_localeCompare ext) areas0
      in case initialLayout areas parameters of
           Inl e \<Rightarrow> Inl e
         | Inr circles \<Rightarrow>
             let setids = objectKeys circles;
                 initial = concat (map (\<lambda>k. case recGet circles k of
                                                None \<Rightarrow> []
                                              | Some c \<Rightarrow> [circle_x c, circle_y c]) setids);
                 solution = ext_nelderMead ext
                              (\<lambda>vals. lossFunction (ext_intersectionArea ext)
                                         (layoutOf circles setids vals) areas)
                              initial parameters
             in case solution of
                  Inl e \<Rightarrow> Inl e
                | Inr positions \<Rightarrow> Inr (writeBack circles setids positions))"

text \<open>
  Stand-ins for the functions from outside the sources, for evaluation: no N-way overlap, no
  intersection points, and optimisers that evaluate their objective at the start vector and
  return that vector.
\<close>

definition demoExternals :: externals where
  "demoExternals =
     \<lparr>ext_intersectionArea = (\<lambda>cs. 0),
      ext_circleCircleIntersection = (\<lambda>c1 c2. []),
      ext_conjugateGradient = (\<lambda>f x ps. (x, fst (f x x))),
      ext_nelderMead = (\<lambda>f x ps. case f x of Inl e \<Rightarrow> Inl e | Inr l \<Rightarrow> Inr x),
      ext_localeCompare = codeUnitCompare\<rparr>"

text \<open>
  An input that takes the constrained-MDS path with one restart, and the layout it gives to
  two sets of size \<open>\<pi>\<close> (radius 1) from the four start coordinates \<open>v\<close>: the distance matrix of
  two disjoint unit discs has norm \<open>sqrt 2\<close>.
\<close>

definition mdsParams :: "real option \<Rightarrow> params" where
  "mdsParams seed = \<lparr>params_layout = Some MDS, params_restarts = Some 1,
                      params_maxIterations = None, params_seed = seed\<rparr>"

definition unitDiscs :: "real list \<Rightarrow> circleRecord" where
  "unitDiscs v =
     [(''A'', \<lparr>circle_x = v ! 0 * sqrt 2, circle_y = v ! 1 * sqrt 2, circle_rowid = Some 0,
               circle_size = Some pi, circle_radius = 1, circle_parent = None, circle_setid = ''A''\<rparr>),
      (''B'', \<lparr>circle_x = v ! 2 * sqrt 2, circle_y = v ! 3 * sqrt 2, circle_rowid = Some 1,
               circle_size = Some pi, circle_radius = 1, circle_parent = None, circle_setid = ''B''\<rparr>)]"

section \<open>Properties of addMissingAreas\<close>

lemma scanAreas_gen:
  "scanAreas areas (ids, P) = (ids @ concat (map singleOf areas), P \<union> (\<Union>ar\<in>set areas. keysOf ar))"
proof (induction areas arbitrary: ids P)
  case Nil then show ?case by simp
next
  case (Cons ar rest)
  show ?case
    by (simp add: Cons.IH singleOf_def keysOf_def split: list.splits) blast
qed

lemma singleIds_eq: "singleIds areas = concat (map singleOf areas)"
  by (simp add: singleIds_def scanAreas_gen)

lemma pairKeys_eq: "pairKeys areas = (\<Union>ar\<in>set areas. keysOf ar)"
  by (simp add: pairKeys_def scanAreas_gen)

lemma set_insertBy: "set (insertBy cmp x ys) = insert x (set ys)"
  by (induction ys) auto

lemma distinct_insertBy: "distinct (insertBy cmp x ys) = (x \<notin> set ys \<and> distinct ys)"
  by (induction ys) (auto simp: set_insertBy)

lemma set_sortBy: "set (sortBy cmp xs) = set xs"
  by (induction xs) (auto simp: sortBy_def set_insertBy)

lemma distinct_sortBy: "distinct (sortBy cmp xs) = distinct xs"
proof (induction xs)
  case Nil then show ?case by (simp add: sortBy_def)
next
  case (Cons x xs)
  have "sortBy cmp (x # xs) = insertBy cmp x (sortBy cmp xs)" by (simp add: sortBy_def)
  then show ?case using Cons by (simp add: distinct_insertBy set_sortBy)
qed

lemma set_idPairs_sub: "(a, b) \<in> set (idPairs xs) \<Longrightarrow> a \<in> set xs \<and> b \<in> set xs"
  by (induction xs) auto

lemma distinct_idPairs: "distinct xs \<Longrightarrow> distinct (idPairs xs)"
  by (induction xs) (auto simp: distinct_map inj_on_def dest: set_idPairs_sub)

lemma idPairs_neq: "distinct xs \<Longrightarrow> (a, b) \<in> set (idPairs xs) \<Longrightarrow> a \<noteq> b"
  by (induction xs) (auto dest: set_idPairs_sub)

lemma idPairs_total:
  "a \<in> set xs \<Longrightarrow> b \<in> set xs \<Longrightarrow> a \<noteq> b \<Longrightarrow> (a, b) \<in> set (idPairs xs) \<or> (b, a) \<in> set (idPairs xs)"
  by (induction xs) auto

lemma idPairs_asym:
  "distinct xs \<Longrightarrow> (a, b) \<in> set (idPairs xs) \<Longrightarrow> (b, a) \<notin> set (idPairs xs)"
  by (induction xs) (auto dest: set_idPairs_sub)

lemma takeWhile_comma: "CHR '','' \<notin> set a \<Longrightarrow> takeWhile (\<lambda>c. c \<noteq> CHR '','') (pairKey a b) = a"
  by (induction a) (auto simp: pairKey_def)

lemma pairKey_inj:
  assumes "CHR '','' \<notin> set a" "CHR '','' \<notin> set c" "pairKey a b = pairKey c d"
  shows "a = c \<and> b = d"
proof -
  have "a = c" using assms by (metis takeWhile_comma)
  with assms(3) show ?thesis by (simp add: pairKey_def)
qed

lemma singleIds_commaFree:
  assumes "commaFree areas" "a \<in> set (singleIds areas)"
  shows "CHR '','' \<notin> set a"
proof -
  from assms(2) obtain ar where ar: "ar \<in> set areas" and a: "a \<in> set (singleOf ar)"
    by (auto simp: singleIds_eq)
  from a have "area_sets ar = [a]"
    by (auto simp: singleOf_def split: list.splits)
  with assms(1) ar show ?thesis by (auto simp: commaFree_def)
qed

lemma key_in_pairKeys:
  assumes cf: "commaFree areas" and a: "CHR '','' \<notin> set a" and b: "CHR '','' \<notin> set b"
  shows "pairKey a b \<in> pairKeys areas \<longleftrightarrow> hasPairArea areas a b"
proof
  assume "pairKey a b \<in> pairKeys areas"
  then obtain ar where ar: "ar \<in> set areas" and k: "pairKey a b \<in> keysOf ar"
    by (auto simp: pairKeys_eq)
  from k obtain x y where xy: "area_sets ar = [x, y]" and e: "pairKey a b = pairKey x y \<or> pairKey a b = pairKey y x"
    by (auto simp: keysOf_def split: list.splits)
  from cf ar xy have cx: "CHR '','' \<notin> set x" and cy: "CHR '','' \<notin> set y"
    by (auto simp: commaFree_def)
  from e show "hasPairArea areas a b"
  proof
    assume "pairKey a b = pairKey x y"
    with a cx have "a = x \<and> b = y" by (rule pairKey_inj)
    with ar xy show ?thesis by (auto simp: hasPairArea_def)
  next
    assume "pairKey a b = pairKey y x"
    with a cy have "a = y \<and> b = x" by (rule pairKey_inj)
    with ar xy show ?thesis by (auto simp: hasPairArea_def)
  qed
next
  assume "hasPairArea areas a b"
  then obtain ar where ar: "ar \<in> set areas" and s: "area_sets ar = [a, b] \<or> area_sets ar = [b, a]"
    by (auto simp: hasPairArea_def)
  from s have "pairKey a b \<in> keysOf ar" by (auto simp: keysOf_def)
  with ar show "pairKey a b \<in> pairKeys areas" by (auto simp: pairKeys_eq)
qed

lemma zeroArea_inj: "zeroArea a b = zeroArea c d \<longleftrightarrow> a = c \<and> b = d"
  by (auto simp: zeroArea_def)

lemma distinct_missingAreas:
  assumes "distinct (singleIds areas)"
  shows "distinct (missingAreas cmp areas)"
proof -
  have "distinct (idPairs (sortBy cmp (singleIds areas)))"
    using assms by (simp add: distinct_idPairs distinct_sortBy)
  then have "distinct (filter (\<lambda>(a, b). pairKey a b \<notin> pairKeys areas) (idPairs (sortBy cmp (singleIds areas))))"
    by (rule distinct_filter)
  moreover have "inj (\<lambda>(a, b). zeroArea a b)"
    by (auto simp: inj_on_def zeroArea_inj)
  ultimately show ?thesis
    unfolding missingAreas_def by (simp add: distinct_map inj_on_subset[OF _ subset_UNIV])
qed

lemma set_missingAreas:
  "zeroArea a b \<in> set (missingAreas cmp areas) \<longleftrightarrow>
     (a, b) \<in> set (idPairs (sortBy cmp (singleIds areas))) \<and> pairKey a b \<notin> pairKeys areas"
  unfolding missingAreas_def by (auto simp: zeroArea_inj)

lemma missingAreas_shape: "x \<in> set (missingAreas cmp areas) \<Longrightarrow> \<exists>a b. x = zeroArea a b"
  unfolding missingAreas_def by auto

text \<open>
  C2 (amended). When the single-set identifiers of the input are pairwise distinct and no
  identifier of a one-set or two-set Area contains a comma, \<^verbatim>\<open>addMissingAreas\<close> keeps the
  input Areas unchanged as a prefix and appends Areas \<open>{sets: [a, b], size: 0}\<close> without
  repetition: exactly those where \<open>a\<close> precedes \<open>b\<close> in the sorted id list and the input has no
  two-set Area for \<open>a\<close> and \<open>b\<close> in either order. So every unordered pair of distinct ids without
  an explicit two-set Area gets exactly one new Area, and a pair with one gets none.
\<close>

theorem addMissingAreas_completes_pairs:
  assumes d: "distinct (singleIds areas)" and cf: "commaFree areas"
  shows "take (length areas) (addMissingAreas cmp areas) = areas \<and>
         distinct (drop (length areas) (addMissingAreas cmp areas)) \<and>
         (\<forall>x\<in>set (drop (length areas) (addMissingAreas cmp areas)). \<exists>a b. x = zeroArea a b) \<and>
         (\<forall>a b. zeroArea a b \<in> set (drop (length areas) (addMissingAreas cmp areas)) \<longleftrightarrow>
            (a, b) \<in> set (idPairs (sortBy cmp (singleIds areas))) \<and> \<not> hasPairArea areas a b) \<and>
         (\<forall>a\<in>set (singleIds areas). \<forall>b\<in>set (singleIds areas). a \<noteq> b \<longrightarrow>
            (if hasPairArea areas a b
             then zeroArea a b \<notin> set (drop (length areas) (addMissingAreas cmp areas)) \<and>
                  zeroArea b a \<notin> set (drop (length areas) (addMissingAreas cmp areas))
             else (zeroArea a b \<in> set (drop (length areas) (addMissingAreas cmp areas))) \<noteq>
                  (zeroArea b a \<in> set (drop (length areas) (addMissingAreas cmp areas)))))"
proof -
  let ?new = "missingAreas cmp areas"
  let ?ids = "sortBy cmp (singleIds areas)"
  have dr: "drop (length areas) (addMissingAreas cmp areas) = ?new"
    by (simp add: addMissingAreas_def)
  have tk: "take (length areas) (addMissingAreas cmp areas) = areas"
    by (simp add: addMissingAreas_def)
  have dn: "distinct ?new" using d by (rule distinct_missingAreas)
  have sh: "\<forall>x\<in>set ?new. \<exists>a b. x = zeroArea a b" by (blast dest: missingAreas_shape)
  have di: "distinct ?ids" using d by (simp add: distinct_sortBy)
  have mem: "zeroArea a b \<in> set ?new \<longleftrightarrow> (a, b) \<in> set (idPairs ?ids) \<and> \<not> hasPairArea areas a b" for a b
  proof (cases "(a, b) \<in> set (idPairs ?ids)")
    case True
    then have "a \<in> set (singleIds areas)" "b \<in> set (singleIds areas)"
      using set_idPairs_sub[of a b ?ids] by (simp_all add: set_sortBy)
    then have "CHR '','' \<notin> set a" "CHR '','' \<notin> set b"
      using cf by (blast dest: singleIds_commaFree)+
    then show ?thesis using True cf by (simp add: set_missingAreas key_in_pairKeys)
  next
    case False
    then show ?thesis by (simp add: set_missingAreas)
  qed
  have sym: "hasPairArea areas a b = hasPairArea areas b a" for a b
    by (auto simp: hasPairArea_def)
  have pr: "\<forall>a\<in>set (singleIds areas). \<forall>b\<in>set (singleIds areas). a \<noteq> b \<longrightarrow>
            (if hasPairArea areas a b
             then zeroArea a b \<notin> set ?new \<and> zeroArea b a \<notin> set ?new
             else (zeroArea a b \<in> set ?new) \<noteq> (zeroArea b a \<in> set ?new))"
  proof (intro ballI impI)
    fix a b assume a: "a \<in> set (singleIds areas)" and b: "b \<in> set (singleIds areas)" and ab: "a \<noteq> b"
    have tot: "(a, b) \<in> set (idPairs ?ids) \<or> (b, a) \<in> set (idPairs ?ids)"
      using a b ab by (intro idPairs_total) (simp_all add: set_sortBy)
    have asym: "\<not> ((a, b) \<in> set (idPairs ?ids) \<and> (b, a) \<in> set (idPairs ?ids))"
      using idPairs_asym[OF di, of a b] by auto
    show "if hasPairArea areas a b
             then zeroArea a b \<notin> set ?new \<and> zeroArea b a \<notin> set ?new
             else (zeroArea a b \<in> set ?new) \<noteq> (zeroArea b a \<in> set ?new)"
      unfolding mem sym[of b a] using tot asym by (cases "hasPairArea areas a b") auto
  qed
  show ?thesis unfolding dr using tk dn sh mem pr by (intro conjI allI) assumption+
qed

theorem addMissingAreas_completes_pairs_witness:
  "distinct (singleIds [singleArea ''A'' 12, singleArea ''B'' 12, singleArea ''C'' 5, pairArea ''B'' ''A'' 2]) \<and>
   commaFree [singleArea ''A'' 12, singleArea ''B'' 12, singleArea ''C'' 5, pairArea ''B'' ''A'' 2] \<and>
   zeroArea ''A'' ''B'' \<notin> set (drop 4 (addMissingAreas codeUnitCompare
     [singleArea ''A'' 12, singleArea ''B'' 12, singleArea ''C'' 5, pairArea ''B'' ''A'' 2])) \<and>
   (zeroArea ''A'' ''C'' \<in> set (drop 4 (addMissingAreas codeUnitCompare
     [singleArea ''A'' 12, singleArea ''B'' 12, singleArea ''C'' 5, pairArea ''B'' ''A'' 2]))) \<noteq>
   (zeroArea ''C'' ''A'' \<in> set (drop 4 (addMissingAreas codeUnitCompare
     [singleArea ''A'' 12, singleArea ''B'' 12, singleArea ''C'' 5, pairArea ''B'' ''A'' 2])))"
proof -
  let ?ex = "[singleArea ''A'' 12, singleArea ''B'' 12, singleArea ''C'' 5, pairArea ''B'' ''A'' 2]"
  have ids: "singleIds ?ex = [''A'', ''B'', ''C'']"
    by (simp add: singleIds_def singleArea_def pairArea_def)
  have d: "distinct (singleIds ?ex)" unfolding ids by simp
  have cf: "commaFree ?ex" by (simp add: commaFree_def singleArea_def pairArea_def)
  have hp: "hasPairArea ?ex ''A'' ''B''" by (simp add: hasPairArea_def singleArea_def pairArea_def)
  have nhp: "\<not> hasPairArea ?ex ''A'' ''C''" by (simp add: hasPairArea_def singleArea_def pairArea_def)
  have len: "length ?ex = 4" by simp
  note t = addMissingAreas_completes_pairs [OF d cf, of codeUnitCompare]
  note q = t [THEN conjunct2, THEN conjunct2, THEN conjunct2, THEN conjunct2, unfolded len, rule_format]
  have mA: "''A'' \<in> set (singleIds ?ex)" and mB: "''B'' \<in> set (singleIds ?ex)"
    and mC: "''C'' \<in> set (singleIds ?ex)"
    unfolding ids by simp_all
  have ab: "''A'' \<noteq> ''B''" and ac: "''A'' \<noteq> ''C''" by simp_all
  have r1: "zeroArea ''A'' ''B'' \<notin> set (drop 4 (addMissingAreas codeUnitCompare ?ex))"
    using q [OF mA mB ab] hp by simp
  have r2: "(zeroArea ''A'' ''C'' \<in> set (drop 4 (addMissingAreas codeUnitCompare ?ex))) \<noteq>
         (zeroArea ''C'' ''A'' \<in> set (drop 4 (addMissingAreas codeUnitCompare ?ex)))"
    using q [OF mA mC ac] nhp by simp
  from d cf r1 r2 show ?thesis by (intro conjI)
qed

text \<open>
  The claim as stated fails when a single-set id is declared twice: the pair of \<open>A\<close> and \<open>B\<close>
  is appended twice (and a pair of \<open>A\<close> with itself once).
\<close>

theorem addMissingAreas_duplicate_id_counterexample:
  "addMissingAreas codeUnitCompare [singleArea ''A'' 1, singleArea ''A'' 1, singleArea ''B'' 1] =
     [singleArea ''A'' 1, singleArea ''A'' 1, singleArea ''B'' 1,
      zeroArea ''A'' ''A'', zeroArea ''A'' ''B'', zeroArea ''A'' ''B'']"
  by (simp add: addMissingAreas_def missingAreas_def singleIds_def pairKeys_def sortBy_def
      singleArea_def pairKey_def)

text \<open>
  It also fails when joined keys collide: the ids \<open>a,b\<close> and \<open>c\<close> have no two-set Area, yet the
  keys stored for the Areas of \<open>a\<close> with \<open>b,c\<close> and of \<open>c,a\<close> with \<open>b\<close> block the new entry
  under every comparator.
\<close>

lemma addMissingAreas_key_collision:
  "addMissingAreas cmp
     [singleArea ''a,b'' 1, singleArea ''c'' 1, pairArea ''a'' ''b,c'' 1, pairArea ''c,a'' ''b'' 1] =
     [singleArea ''a,b'' 1, singleArea ''c'' 1, pairArea ''a'' ''b,c'' 1, pairArea ''c,a'' ''b'' 1]"
  by (simp add: addMissingAreas_def missingAreas_def singleIds_def pairKeys_def sortBy_def
      singleArea_def pairArea_def pairKey_def)

section \<open>Properties of lossFunction\<close>

lemma fold_lossStep_error: "fold (lossStep ia sets) overlaps (Inl e) = Inl e"
  by (induction overlaps) (simp_all add: lossStep_def)

lemma getCircles_defined:
  "None \<in> set (getCircles sets ks) \<longleftrightarrow> \<not> list_all (\<lambda>k. recGet sets k \<noteq> None) ks"
  by (induction ks) (auto simp: getCircles_def)

lemma lossStep_defined:
  assumes "length (area_sets ar) = 1 \<or> length (area_sets ar) = 2 \<or> circlesExist sets ar"
  shows "lossStep ia sets ar (Inr acc) = Inr (acc + areaContribution ia sets ar)"
proof -
  consider "length (area_sets ar) = 1" | "length (area_sets ar) = 2"
    | "length (area_sets ar) \<noteq> 1" "length (area_sets ar) \<noteq> 2" "circlesExist sets ar"
    using assms by blast
  then show ?thesis
  proof cases
    case 1
    then show ?thesis by (simp add: lossStep_def achievedOverlap_def areaContribution_def)
  next
    case 2
    then show ?thesis
      by (auto simp: lossStep_def achievedOverlap_def areaContribution_def areaWeight_def
          power2_eq_square Let_def split: option.splits)
  next
    case 3
    from 3(3) have "None \<notin> set (getCircles sets (area_sets ar))"
      by (simp add: getCircles_defined circlesExist_def)
    with 3(1,2) show ?thesis
      by (auto simp: lossStep_def achievedOverlap_def areaContribution_def areaWeight_def
          getCircles_def power2_eq_square Let_def comp_def split: option.splits)
  qed
qed

lemma lossStep_undefined:
  assumes "\<not> (length (area_sets ar) = 1 \<or> length (area_sets ar) = 2 \<or> circlesExist sets ar)"
  shows "lossStep ia sets ar (Inr acc) = Inl TypeError"
proof -
  from assms have "None \<in> set (getCircles sets (area_sets ar))"
    by (simp add: getCircles_defined circlesExist_def)
  with assms show ?thesis by (simp add: lossStep_def achievedOverlap_def)
qed

lemma fold_lossStep:
  "fold (lossStep ia sets) overlaps (Inr acc) =
     (if lossDefined sets overlaps then Inr (acc + (\<Sum>ar\<leftarrow>overlaps. areaContribution ia sets ar))
      else Inl TypeError)"
proof (induction overlaps arbitrary: acc)
  case Nil
  then show ?case by (simp add: lossDefined_def)
next
  case (Cons ar rest)
  show ?case
  proof (cases "length (area_sets ar) = 1 \<or> length (area_sets ar) = 2 \<or> circlesExist sets ar")
    case True
    then show ?thesis
      using Cons.IH [of "acc + areaContribution ia sets ar"]
      by (simp add: lossStep_defined lossDefined_def add.assoc)
  next
    case False
    then show ?thesis
      by (simp add: lossStep_undefined fold_lossStep_error lossDefined_def)
  qed
qed

lemma lossFunction_error: "lossFunction ia sets overlaps = Inl e \<Longrightarrow> e = TypeError"
  by (simp add: lossFunction_def fold_lossStep split: if_splits)

lemma lossFunction_pairs:
  assumes "\<forall>ar\<in>set overlaps. length (area_sets ar) = 2"
  shows "\<exists>l. lossFunction ia sets overlaps = Inr l"
proof -
  from assms have "lossDefined sets overlaps" by (simp add: lossDefined_def list_all_iff)
  then show ?thesis by (simp add: lossFunction_def fold_lossStep)
qed


lemma distance_on_axis: "0 \<le> a \<Longrightarrow> distance (0, 0) (a, 0) = a"
  by (simp add: distance_def)



text \<open>
  An Area with three or more members is not skipped when one of its circles is missing, as a
  two-member Area is: the N-way primitive is called with the missing circle as
  \<^verbatim>\<open>undefined\<close>, and the call throws, whatever the primitive computes on circles.
\<close>

lemma lossFunction_missing_circle_throws:
  "\<not> lossDefined sets overlaps \<Longrightarrow> lossFunction ia sets overlaps = Inl TypeError"
  by (simp add: lossFunction_def fold_lossStep)

lemma lossFunction_three_way_missing_circle:
  "lossFunction ia [(''A'', mkCircle ''A'' 0 0 1), (''B'', mkCircle ''B'' 3 0 1)]
     [\<lparr>area_sets = [''A'', ''B'', ''C''], area_size = 0, area_weight = None, area_label = None\<rparr>] =
   Inl TypeError"
  by (simp add: lossFunction_def lossStep_def achievedOverlap_def getCircles_def recGet_def)

section \<open>Properties of bestInitialLayout\<close>

text \<open>
  C1 (amended). \<^verbatim>\<open>bestInitialLayout\<close> always computes the greedy layout (an error of
  greedy is the result). Exactly when the input list has 8 or more Areas of any kind, it
  also computes the constrained-MDS layout (an error of MDS is the result) and returns the
  MDS result if and only if the MDS loss plus \<open>1e-8\<close> is strictly less than the greedy loss
  (an error of the loss function, taken on the MDS layout first, is the result); with fewer
  than 8 Areas the greedy result is returned whatever MDS would do.
\<close>

theorem bestInitialLayout_selects:
  "(G areas ps = Inl e \<longrightarrow> bestInitialLayout G M L areas ps = Inl e) \<and>
   (G areas ps = Inr g \<and> length areas < 8 \<longrightarrow>
      (\<forall>M'. bestInitialLayout G M' L areas ps = Inr g)) \<and>
   (G areas ps = Inr g \<and> 8 \<le> length areas \<and> M areas ps = Inl e \<longrightarrow>
      bestInitialLayout G M L areas ps = Inl e) \<and>
   (G areas ps = Inr g \<and> 8 \<le> length areas \<and> M areas ps = Inr m \<longrightarrow>
      bestInitialLayout G M L areas ps =
        (case L m areas of
           Inl e' \<Rightarrow> Inl e'
         | Inr lm \<Rightarrow>
             (case L g areas of
                Inl e' \<Rightarrow> Inl e'
              | Inr lg \<Rightarrow> if lm + 1 / 10 ^ 8 < lg then Inr m else Inr g)))"
  by (simp add: bestInitialLayout_def Let_def)

theorem bestInitialLayout_selects_witness:
  "(\<lambda>a p. Inr [(''A'', mkCircle ''A'' 0 0 1)]) (replicate 8 (singleArea ''A'' 1)) noParams =
     (Inr [(''A'', mkCircle ''A'' 0 0 1)] :: error + circleRecord) \<and>
   8 \<le> length (replicate 8 (singleArea ''A'' 1)) \<and>
   (\<lambda>a p. Inr [(''A'', mkCircle ''A'' 5 5 1)]) (replicate 8 (singleArea ''A'' 1)) noParams =
     (Inr [(''A'', mkCircle ''A'' 5 5 1)] :: error + circleRecord) \<and>
   bestInitialLayout (\<lambda>a p. Inr [(''A'', mkCircle ''A'' 0 0 1)])
     (\<lambda>a p. Inr [(''A'', mkCircle ''A'' 5 5 1)]) (lossFunction (\<lambda>cs. 0))
     (replicate 8 (singleArea ''A'' 1)) noParams = Inr [(''A'', mkCircle ''A'' 0 0 1)]"
  using bestInitialLayout_selects
    [of "\<lambda>a p. Inr [(''A'', mkCircle ''A'' 0 0 1)]" "replicate 8 (singleArea ''A'' 1)" noParams
        TypeError "\<lambda>a p. Inr [(''A'', mkCircle ''A'' 5 5 1)]" "lossFunction (\<lambda>cs. 0)"
        "[(''A'', mkCircle ''A'' 0 0 1)]" "[(''A'', mkCircle ''A'' 5 5 1)]"]
  by (simp add: lossFunction_def lossStep_def achievedOverlap_def singleArea_def numeral_eq_Suc)

text \<open>
  The claim as stated fails: an input with two single-set Areas and six two-set Areas has 8
  Areas, so the constrained-MDS layout is computed and, having the lower loss here, returned.
\<close>

theorem bestInitialLayout_threshold_counterexample:
  "singleSetCount ([singleArea ''A'' 1, singleArea ''B'' 1] @ replicate 6 (pairArea ''A'' ''B'' 0)) = 2 \<and>
   bestInitialLayout
     (\<lambda>a p. Inr [(''A'', mkCircle ''A'' 0 0 1), (''B'', mkCircle ''B'' 0 0 1)])
     (\<lambda>a p. Inr [(''A'', mkCircle ''A'' 0 0 1), (''B'', mkCircle ''B'' 3 0 1)])
     (lossFunction (\<lambda>cs. 0))
     ([singleArea ''A'' 1, singleArea ''B'' 1] @ replicate 6 (pairArea ''A'' ''B'' 0)) noParams =
   Inr [(''A'', mkCircle ''A'' 0 0 1), (''B'', mkCircle ''B'' 3 0 1)]"
proof -
  let ?areas = "[singleArea ''A'' 1, singleArea ''B'' 1] @ replicate 6 (pairArea ''A'' ''B'' 0)"
  let ?g = "[(''A'', mkCircle ''A'' 0 0 1), (''B'', mkCircle ''B'' 0 0 1)]"
  let ?m = "[(''A'', mkCircle ''A'' 0 0 1), (''B'', mkCircle ''B'' 3 0 1)]"
  have n: "singleSetCount ?areas = 2"
    by (simp add: singleSetCount_def singleArea_def pairArea_def numeral_eq_Suc)
  have len: "8 \<le> length ?areas" by simp
  have lm: "lossFunction (\<lambda>cs. 0) ?m ?areas = Inr 0"
    by (simp add: lossFunction_def lossStep_def achievedOverlap_def recGet_def singleArea_def
        pairArea_def mkCircle_def centre_def distance_on_axis circleOverlap_def areaWeight_def
        numeral_eq_Suc)
  have lg: "lossFunction (\<lambda>cs. 0) ?g ?areas = Inr (6 * (pi * pi))"
    by (simp add: lossFunction_def lossStep_def achievedOverlap_def recGet_def singleArea_def
        pairArea_def mkCircle_def centre_def distance_def circleOverlap_def areaWeight_def
        numeral_eq_Suc)
  have "1 < pi" using pi_ge_two by simp
  then have "1 < pi * pi" by (simp add: less_1_mult)
  then have lt: "(0::real) + 1 / 10 ^ 8 < 6 * (pi * pi)"
    by simp
  have "bestInitialLayout (\<lambda>a p. Inr ?g) (\<lambda>a p. Inr ?m) (lossFunction (\<lambda>cs. 0)) ?areas noParams = Inr ?m"
    unfolding bestInitialLayout_def using len lt
    by (simp del: replicate.simps append.simps add: Let_def lm lg)
  with n show ?thesis by (intro conjI)
qed

section \<open>Properties of vennSolution\<close>

lemma safeData_idem: "safeData (safeData data) = safeData data"
  by (simp add: safeData_def)

lemma safeData_member:
  "datum \<in> set (safeData data) \<longleftrightarrow> datum \<in> set data \<and> area_size datum \<noteq> 0 \<and> area_sets datum \<noteq> []"
  by (auto simp: safeData_def)

text \<open>
  C10. \<^verbatim>\<open>vennSolution\<close> drops every input Area whose size is 0 or whose set list is empty
  before anything else runs: the Areas that reach the stages are those of the input with a
  size other than 0 and a set list that is not empty, and the result is the result on the
  filtered input. When no Area survives, the result is \<open>{circles: [], intersections: []}\<close>
  whatever the layout, normalization, scaling and text-centre stages are, so none of them is
  called.
\<close>

theorem vennSolution_filters_first:
  "vennSolution st data opts = vennSolution st (safeData data) opts \<and>
   (\<forall>datum. datum \<in> set (safeData data) \<longleftrightarrow>
      datum \<in> set data \<and> area_size datum \<noteq> 0 \<and> area_sets datum \<noteq> []) \<and>
   (safeData data = [] \<longrightarrow>
      (\<forall>st'. vennSolution st' data opts = Inr \<lparr>out_circles = [], out_intersections = []\<rparr>))"
proof (intro conjI allI impI)
  show "vennSolution st data opts = vennSolution st (safeData data) opts"
    unfolding vennSolution_def safeData_idem by (rule refl)
next
  fix datum
  show "datum \<in> set (safeData data) \<longleftrightarrow>
      datum \<in> set data \<and> area_size datum \<noteq> 0 \<and> area_sets datum \<noteq> []"
    by (rule safeData_member)
next
  fix st'
  assume "safeData data = []"
  then show "vennSolution st' data opts = Inr \<lparr>out_circles = [], out_intersections = []\<rparr>"
    by (simp add: vennSolution_def)
qed

theorem vennSolution_filters_first_witness:
  "safeData [\<lparr>area_sets = [], area_size = 3, area_weight = None, area_label = None\<rparr>,
             singleArea ''A'' 0] = [] \<and>
   vennSolution throwingStages
     [\<lparr>area_sets = [], area_size = 3, area_weight = None, area_label = None\<rparr>, singleArea ''A'' 0]
     defaultOptions = Inr \<lparr>out_circles = [], out_intersections = []\<rparr>"
  using vennSolution_filters_first
    [of throwingStages
        "[\<lparr>area_sets = [], area_size = 3, area_weight = None, area_label = None\<rparr>, singleArea ''A'' 0]"
        defaultOptions]
  by (simp add: safeData_def singleArea_def)

section \<open>Properties of scaleSolution\<close>

lemma recGet_recSet: "recGet (recSet s k v) k' = (if k' = k then Some v else recGet s k')"
  by (induction s) (auto simp: recGet_def)

lemma set_objectEntries: "set (objectEntries r) = set r"
  by (auto simp: objectEntries_def)

lemma distinct_objectEntries:
  assumes "distinct (map fst r)"
  shows "distinct (map fst (objectEntries r))"
proof -
  let ?a = "filter (\<lambda>(k, v). isArrayIndex k) r"
  let ?b = "filter (\<lambda>(k, v). \<not> isArrayIndex k) r"
  have inj: "inj_on fst (set r)" and d: "distinct r"
    using assms by (simp_all add: distinct_map)
  have da: "distinct (map fst (sort_key (\<lambda>(k, v). decimalValue k) ?a))"
    using d inj by (auto simp: distinct_map intro: inj_on_subset)
  have db: "distinct (map fst ?b)"
    using d inj by (auto simp: distinct_map intro: inj_on_subset)
  have "fst ` set ?a \<inter> fst ` set ?b = {}"
  proof (rule ccontr)
    assume "fst ` set ?a \<inter> fst ` set ?b \<noteq> {}"
    then obtain k v w where "(k, v) \<in> set ?a" "(k, w) \<in> set ?b" by fastforce
    then show False by auto
  qed
  then show ?thesis using da db by (simp add: objectEntries_def)
qed

lemma recGet_objectEntries:
  assumes "distinct (map fst r)"
  shows "recGet r k = Some a \<longleftrightarrow> (k, a) \<in> set (objectEntries r)"
  using assms by (simp add: recGet_def set_objectEntries)

lemma fold_scaleStep:
  assumes "distinct (map fst es)"
  shows "length (fst st) \<le> length (fst (fold (scaleStep f) es st)) \<and>
         (\<forall>a < length (fst st). fst (fold (scaleStep f) es st) ! a = fst st ! a) \<and>
         (\<forall>k c. (k, c) \<in> set es \<and> k \<noteq> [] \<longrightarrow>
            (\<exists>a'. recGet (snd (fold (scaleStep f) es st)) k = Some a' \<and>
                   length (fst st) \<le> a' \<and> a' < length (fst (fold (scaleStep f) es st)) \<and>
                   fst (fold (scaleStep f) es st) ! a' = f c)) \<and>
         (\<forall>k. k \<notin> fst ` set es \<or> k = [] \<longrightarrow>
            recGet (snd (fold (scaleStep f) es st)) k = recGet (snd st) k)"
  using assms
proof (induction es arbitrary: st)
  case Nil
  then show ?case by simp
next
  case (Cons e es)
  let ?st1 = "scaleStep f e st"
  let ?r = "fold (scaleStep f) es ?st1"
  from Cons.prems have d: "distinct (map fst es)" and ne: "fst e \<notin> fst ` set es" by auto
  note ih = Cons.IH [OF d, of ?st1]
  have len1: "length (fst st) \<le> length (fst ?st1)" by (simp add: scaleStep_def)
  have pre1: "\<forall>a < length (fst st). fst ?st1 ! a = fst st ! a"
    by (simp add: scaleStep_def nth_append)
  have r: "fold (scaleStep f) (e # es) st = ?r" by simp
  have c1: "length (fst st) \<le> length (fst ?r)" using ih len1 by linarith
  have c2: "\<forall>a < length (fst st). fst ?r ! a = fst st ! a"
    using ih len1 pre1 by auto
  have c3: "\<exists>a'. recGet (snd ?r) k = Some a' \<and> length (fst st) \<le> a' \<and> a' < length (fst ?r) \<and>
                   fst ?r ! a' = f c" if kc: "(k, c) \<in> set (e # es)" and k: "k \<noteq> []" for k c
  proof (cases "(k, c) \<in> set es")
    case True
    with ih k obtain a' where "recGet (snd ?r) k = Some a'" "length (fst ?st1) \<le> a'"
      "a' < length (fst ?r)" "fst ?r ! a' = f c" by blast
    with len1 show ?thesis by auto
  next
    case False
    with kc have e: "e = (k, c)" by simp
    with ne have "k \<notin> fst ` set es" by simp
    with ih have "recGet (snd ?r) k = recGet (snd ?st1) k" by blast
    also have "\<dots> = Some (length (fst st))" using e k by (simp add: scaleStep_def recGet_recSet)
    finally have g: "recGet (snd ?r) k = Some (length (fst st))" .
    have l: "length (fst st) < length (fst ?st1)" using e k by (simp add: scaleStep_def)
    then have "fst ?r ! length (fst st) = fst ?st1 ! length (fst st)" using ih by blast
    also have "\<dots> = f c" using e k by (simp add: scaleStep_def)
    finally have v: "fst ?r ! length (fst st) = f c" .
    have "length (fst st) < length (fst ?r)" using l ih by linarith
    with g v show ?thesis by auto
  qed
  have c4: "recGet (snd ?r) k = recGet (snd st) k" if "k \<notin> fst ` set (e # es) \<or> k = []" for k
  proof -
    from that have "k \<notin> fst ` set es \<or> k = []" by auto
    with ih have "recGet (snd ?r) k = recGet (snd ?st1) k" by blast
    also have "\<dots> = recGet (snd st) k" using that by (auto simp: scaleStep_def recGet_recSet)
    finally show ?thesis .
  qed
  show ?case unfolding r using c1 c2 c3 c4 by blast
qed

lemma objectEntries_plain:
  assumes "\<forall>e\<in>set r. \<not> isArrayIndex (fst e)"
  shows "objectEntries r = r"
proof -
  have "filter (\<lambda>(k, v). isArrayIndex k) r = []"
    using assms by (auto simp: filter_empty_conv)
  moreover have "filter (\<lambda>(k, v). \<not> isArrayIndex k) r = r"
    using assms by (auto simp: filter_id_conv)
  ultimately show ?thesis by (simp add: objectEntries_def)
qed

lemma letters_not_index [simp]: "\<not> isArrayIndex ''A''" "\<not> isArrayIndex ''B''" "\<not> isArrayIndex ''C''"
  "\<not> isArrayIndex []"
  by (simp_all add: isArrayIndex_def isDigit_def)

lemma zip_same_map: "zip (map f xs) (map g xs) = map (\<lambda>x. (f x, g x)) xs"
  by (induction xs) auto

lemma scaleSolution_nondegenerate:
  assumes bb: "getBoundingBox (circlesOf h solution) = Some b" and nd: "\<not> degenerate b"
  shows "scaleSolution h solution w ht p =
         fold (scaleStep (scaledCircle (scalingOf b w ht p) p (xOffsetOf b w ht p) (yOffsetOf b w ht p)
                 (range_min (xRange b)) (range_min (yRange b))))
           (map (\<lambda>e. (fst e, h ! snd e)) (objectEntries solution)) (h, [])"
  using bb nd
  unfolding scaleSolution_def circlesOf_def degenerate_def scalingOf_def xOffsetOf_def yOffsetOf_def
  by (simp add: Let_def zip_same_map)

lemma scaleSolution_degenerate:
  assumes bb: "getBoundingBox (circlesOf h solution) = Some b" and dg: "degenerate b"
  shows "scaleSolution h solution w ht p = (h, solution)"
  using bb dg unfolding scaleSolution_def circlesOf_def degenerate_def
  by (simp add: Let_def)

text \<open>
  C7 (amended). If the union bounding box of a solution is degenerate (zero width or zero
  height), \<^verbatim>\<open>scaleSolution\<close> returns its input: the same store and the same record. If it is
  not, every circle of the input whose id is not the empty string has, under the same id, a
  new circle in the result whose radius and coordinates are scaled by one factor, the smaller
  of the two ratios of viewport minus padding to bounding-box extent; the result has no other
  entry, so a circle stored under the empty id is left out.
\<close>

theorem scaleSolution_uniform:
  assumes d: "distinct (map fst solution)"
  shows "(\<forall>b. getBoundingBox (circlesOf h solution) = Some b \<and> degenerate b \<longrightarrow>
            scaleSolution h solution w ht p = (h, solution)) \<and>
         (\<forall>b. getBoundingBox (circlesOf h solution) = Some b \<and> \<not> degenerate b \<longrightarrow>
            (\<forall>k a. recGet solution k = Some a \<and> k \<noteq> [] \<longrightarrow>
               (\<exists>a'. recGet (snd (scaleSolution h solution w ht p)) k = Some a' \<and>
                  fst (scaleSolution h solution w ht p) ! a' =
                    (h ! a)\<lparr>circle_radius := scalingOf b w ht p * circle_radius (h ! a),
                            circle_x := p + xOffsetOf b w ht p +
                               (circle_x (h ! a) - range_min (xRange b)) * scalingOf b w ht p,
                            circle_y := p + yOffsetOf b w ht p +
                               (circle_y (h ! a) - range_min (yRange b)) * scalingOf b w ht p\<rparr>)) \<and>
            (\<forall>k. recGet solution k = None \<or> k = [] \<longrightarrow>
               recGet (snd (scaleSolution h solution w ht p)) k = None))"
proof (intro conjI allI impI)
  fix b assume "getBoundingBox (circlesOf h solution) = Some b \<and> degenerate b"
  then show "scaleSolution h solution w ht p = (h, solution)"
    by (simp add: scaleSolution_degenerate)
next
  fix b k a
  assume bb: "getBoundingBox (circlesOf h solution) = Some b \<and> \<not> degenerate b"
    and ka: "recGet solution k = Some a \<and> k \<noteq> []"
  let ?f = "scaledCircle (scalingOf b w ht p) p (xOffsetOf b w ht p) (yOffsetOf b w ht p)
                 (range_min (xRange b)) (range_min (yRange b))"
  let ?es = "map (\<lambda>e. (fst e, h ! snd e)) (objectEntries solution)"
  have eq: "scaleSolution h solution w ht p = fold (scaleStep ?f) ?es (h, [])"
    using bb by (simp add: scaleSolution_nondegenerate)
  have mf: "map fst ?es = map fst (objectEntries solution)" by (simp add: comp_def)
  have des: "distinct (map fst ?es)" unfolding mf using d by (rule distinct_objectEntries)
  have "(k, a) \<in> set (objectEntries solution)" using ka d by (simp add: recGet_objectEntries)
  then have mem: "(k, h ! a) \<in> set ?es" by force
  from fold_scaleStep [OF des, of "(h, [])" ?f] mem ka
  obtain a' where "recGet (snd (fold (scaleStep ?f) ?es (h, []))) k = Some a'"
    and "fst (fold (scaleStep ?f) ?es (h, [])) ! a' = ?f (h ! a)" by blast
  then show "\<exists>a'. recGet (snd (scaleSolution h solution w ht p)) k = Some a' \<and>
                  fst (scaleSolution h solution w ht p) ! a' =
                    (h ! a)\<lparr>circle_radius := scalingOf b w ht p * circle_radius (h ! a),
                            circle_x := p + xOffsetOf b w ht p +
                               (circle_x (h ! a) - range_min (xRange b)) * scalingOf b w ht p,
                            circle_y := p + yOffsetOf b w ht p +
                               (circle_y (h ! a) - range_min (yRange b)) * scalingOf b w ht p\<rparr>"
    unfolding eq by (auto simp: scaledCircle_def)
next
  fix b k
  assume bb: "getBoundingBox (circlesOf h solution) = Some b \<and> \<not> degenerate b"
    and kn: "recGet solution k = None \<or> k = []"
  let ?f = "scaledCircle (scalingOf b w ht p) p (xOffsetOf b w ht p) (yOffsetOf b w ht p)
                 (range_min (xRange b)) (range_min (yRange b))"
  let ?es = "map (\<lambda>e. (fst e, h ! snd e)) (objectEntries solution)"
  have eq: "scaleSolution h solution w ht p = fold (scaleStep ?f) ?es (h, [])"
    using bb by (simp add: scaleSolution_nondegenerate)
  have mf: "map fst ?es = map fst (objectEntries solution)" by (simp add: comp_def)
  have des: "distinct (map fst ?es)" unfolding mf using d by (rule distinct_objectEntries)
  have "fst ` set ?es = fst ` set solution"
    using mf set_objectEntries [of solution] by (metis set_map)
  moreover have "recGet solution k = None \<longleftrightarrow> k \<notin> fst ` set solution"
    by (simp add: recGet_def map_of_eq_None_iff)
  ultimately have "k \<notin> fst ` set ?es \<or> k = []" using kn by (cases "k = []") simp_all
  with fold_scaleStep [OF des, of "(h, [])" ?f]
  have "recGet (snd (fold (scaleStep ?f) ?es (h, []))) k = recGet (snd (h, [])) k" by blast
  then show "recGet (snd (scaleSolution h solution w ht p)) k = None"
    unfolding eq by (simp add: recGet_def)
qed

theorem scaleSolution_uniform_witness:
  "distinct (map fst [(''A'', 0::nat), (''B'', 1)]) \<and>
   getBoundingBox (circlesOf [mkCircle ''A'' 0 0 1, mkCircle ''B'' 1 0 1] [(''A'', 0), (''B'', 1)]) =
     Some \<lparr>xRange = \<lparr>range_max = 2, range_min = - 1\<rparr>, yRange = \<lparr>range_max = 1, range_min = - 1\<rparr>\<rparr> \<and>
   \<not> degenerate \<lparr>xRange = \<lparr>range_max = 2, range_min = - 1\<rparr>, yRange = \<lparr>range_max = 1, range_min = - 1\<rparr>\<rparr> \<and>
   recGet [(''A'', 0::nat), (''B'', 1)] ''B'' = Some 1 \<and>
   (\<exists>a'. recGet (snd (scaleSolution [mkCircle ''A'' 0 0 1, mkCircle ''B'' 1 0 1]
                       [(''A'', 0), (''B'', 1)] 300 300 0)) ''B'' = Some a' \<and>
         fst (scaleSolution [mkCircle ''A'' 0 0 1, mkCircle ''B'' 1 0 1]
                [(''A'', 0), (''B'', 1)] 300 300 0) ! a' = mkCircle ''B'' 200 150 100) \<and>
   getBoundingBox (circlesOf [mkCircle ''A'' 7 7 0] [(''A'', 0)]) =
     Some \<lparr>xRange = \<lparr>range_max = 7, range_min = 7\<rparr>, yRange = \<lparr>range_max = 7, range_min = 7\<rparr>\<rparr> \<and>
   scaleSolution [mkCircle ''A'' 7 7 0] [(''A'', 0)] 300 300 0 = ([mkCircle ''A'' 7 7 0], [(''A'', 0)])"
proof -
  let ?h = "[mkCircle ''A'' 0 0 1, mkCircle ''B'' 1 0 1]"
  let ?s = "[(''A'', 0::nat), (''B'', 1)]"
  let ?b = "\<lparr>xRange = \<lparr>range_max = 2, range_min = - 1\<rparr>, yRange = \<lparr>range_max = 1, range_min = - 1\<rparr>\<rparr>"
  let ?hz = "[mkCircle ''A'' 7 7 0]"
  let ?sz = "[(''A'', 0::nat)]"
  let ?bz = "\<lparr>xRange = \<lparr>range_max = 7, range_min = 7\<rparr>, yRange = \<lparr>range_max = 7, range_min = 7\<rparr>\<rparr>"
  have d: "distinct (map fst ?s)" by simp
  have bb: "getBoundingBox (circlesOf ?h ?s) = Some ?b"
    by (simp add: getBoundingBox_def circlesOf_def objectEntries_plain minMax_def mkCircle_def)
  have nd: "\<not> degenerate ?b" by (simp add: degenerate_def)
  have g: "recGet ?s ''B'' = Some 1" by (simp add: recGet_def)
  have sc: "scalingOf ?b 300 300 0 = 100" by (simp add: scalingOf_def)
  have xo: "xOffsetOf ?b 300 300 0 = 0" by (simp add: xOffsetOf_def sc)
  have yo: "yOffsetOf ?b 300 300 0 = 50" by (simp add: yOffsetOf_def sc)
  from scaleSolution_uniform [OF d, of ?h 300 300 0, THEN conjunct2, rule_format, OF conjI [OF bb nd],
      THEN conjunct1, rule_format, of "''B''" 1] g
  have r: "\<exists>a'. recGet (snd (scaleSolution ?h ?s 300 300 0)) ''B'' = Some a' \<and>
         fst (scaleSolution ?h ?s 300 300 0) ! a' = mkCircle ''B'' 200 150 100"
    by (simp add: sc xo yo mkCircle_def)
  have d0: "distinct (map fst ?sz)" by simp
  have bb0: "getBoundingBox (circlesOf ?hz ?sz) = Some ?bz"
    by (simp add: getBoundingBox_def circlesOf_def objectEntries_plain minMax_def mkCircle_def)
  have dg0: "degenerate ?bz" by (simp add: degenerate_def)
  from scaleSolution_uniform [OF d0, of ?hz 300 300 0, THEN conjunct1, rule_format, OF conjI [OF bb0 dg0]]
  have r0: "scaleSolution ?hz ?sz 300 300 0 = (?hz, ?sz)" .
  from d bb nd g r bb0 r0 show ?thesis by (intro conjI)
qed

text \<open>
  The claim as stated fails for a circle stored under the empty id: its bounding box is not
  degenerate, and the result holds no circle at all.
\<close>

theorem scaleSolution_empty_id_counterexample:
  "getBoundingBox (circlesOf [mkCircle [] 0 0 1] [([], 0)]) =
     Some \<lparr>xRange = \<lparr>range_max = 1, range_min = - 1\<rparr>, yRange = \<lparr>range_max = 1, range_min = - 1\<rparr>\<rparr> \<and>
   scaleSolution [mkCircle [] 0 0 1] [([], 0)] 10 10 0 = ([mkCircle [] 0 0 1], [])"
  by (simp add: scaleSolution_def getBoundingBox_def circlesOf_def objectEntries_plain minMax_def
      mkCircle_def scaleStep_def Let_def)

section \<open>Writes of orientateCircles, disjointCluster and normalizeSolution\<close>

lemma writesWithin_refl: "writesWithin S h h"
  by (simp add: writesWithin_def)

lemma writesWithin_trans:
  "writesWithin S h h1 \<Longrightarrow> writesWithin S h1 h2 \<Longrightarrow> writesWithin S h h2"
  by (simp add: writesWithin_def)

lemma writesWithin_update: "a \<in> S \<Longrightarrow> writesWithin S h (h[a := v])"
proof -
  assume a: "a \<in> S"
  have "h[a := v] ! b = h ! b" if "b \<notin> S" for b
    using a that by (intro nth_list_update_neq) blast
  then show ?thesis by (simp add: writesWithin_def)
qed

lemma writesWithin_fold:
  assumes "\<And>a h. a \<in> set cs \<Longrightarrow> writesWithin S h (g a h)"
  shows "writesWithin S h (fold g cs h)"
  using assms
proof (induction cs arbitrary: h)
  case Nil
  then show ?case by (simp add: writesWithin_refl)
next
  case (Cons c cs)
  have "writesWithin S h (g c h)" using Cons.prems by simp
  moreover have "writesWithin S (g c h) (fold g cs (g c h))"
    using Cons.prems by (intro Cons.IH) simp
  ultimately show ?case by (auto intro: writesWithin_trans)
qed

lemma set_sortCircles: "set (sortCircles h circles ord) = set circles"
  by (cases ord) (simp_all add: sortCircles_def set_sortBy)

lemma fold_update_writes:
  "set cs \<subseteq> S \<Longrightarrow> writesWithin S h (fold (\<lambda>a h. h[a := F a h]) cs h)"
  by (rule writesWithin_fold) (auto intro: writesWithin_update)

lemma shiftCircles_writes: "set circles \<subseteq> S \<Longrightarrow> writesWithin S h (shiftCircles h circles)"
proof (cases circles)
  case Nil
  then show ?thesis by (simp add: shiftCircles_def writesWithin_refl)
next
  case (Cons c0 rest)
  assume "set circles \<subseteq> S"
  then have "writesWithin S h (fold (\<lambda>a h'. h'[a := (h' ! a)\<lparr>circle_x := circle_x (h' ! a) - circle_x (h ! c0),
                                         circle_y := circle_y (h' ! a) - circle_y (h ! c0)\<rparr>]) circles h)"
    by (rule fold_update_writes)
  then show ?thesis unfolding shiftCircles_def Let_def Cons by (simp only: list.case)
qed

lemma nudgeSubset_writes: "set circles \<subseteq> S \<Longrightarrow> writesWithin S h (nudgeSubset h circles)"
  unfolding nudgeSubset_def Let_def
  by (auto simp: writesWithin_refl split: list.splits intro: writesWithin_update)

lemma rotateCircles_writes: "set circles \<subseteq> S \<Longrightarrow> writesWithin S h (rotateCircles h circles orientation)"
  unfolding rotateCircles_def Let_def
  by (simp add: writesWithin_refl fold_update_writes del: fold_simps)

lemma mirrorCircles_writes: "set circles \<subseteq> S \<Longrightarrow> writesWithin S h (mirrorCircles h circles orientation)"
  unfolding mirrorCircles_def Let_def
  by (simp add: writesWithin_refl fold_update_writes del: fold_simps)

lemma orientateCircles_writes:
  assumes "set circles \<subseteq> S"
  shows "writesWithin S h (fst (orientateCircles h circles orientation ord))"
    and "set (snd (orientateCircles h circles orientation ord)) = set circles"
proof -
  let ?cs = "sortCircles h circles ord"
  have s: "set ?cs \<subseteq> S" using assms by (simp add: set_sortCircles)
  let ?h1 = "shiftCircles h ?cs"
  let ?h2 = "nudgeSubset ?h1 ?cs"
  let ?h3 = "rotateCircles ?h2 ?cs orientation"
  let ?h4 = "mirrorCircles ?h3 ?cs orientation"
  have "writesWithin S h ?h1" using s by (rule shiftCircles_writes)
  moreover have "writesWithin S ?h1 ?h2" using s by (rule nudgeSubset_writes)
  moreover have "writesWithin S ?h2 ?h3" using s by (rule rotateCircles_writes)
  moreover have "writesWithin S ?h3 ?h4" using s by (rule mirrorCircles_writes)
  ultimately have "writesWithin S h ?h4" by (blast intro: writesWithin_trans)
  then show "writesWithin S h (fst (orientateCircles h circles orientation ord))"
    by (simp add: orientateCircles_def Let_def)
  show "set (snd (orientateCircles h circles orientation ord)) = set circles"
    by (simp add: orientateCircles_def Let_def set_sortCircles)
qed

lemma parentsWithin_set_parent:
  assumes pw: "parentsWithin S h" and a: "a \<in> S" and r: "refWithin S r"
  shows "parentsWithin S (h[a := (h ! a)\<lparr>circle_parent := r\<rparr>])"
  unfolding parentsWithin_def
proof (intro ballI conjI allI impI)
  fix b assume b: "b \<in> S"
  show "b < length (h[a := (h ! a)\<lparr>circle_parent := r\<rparr>])"
    using pw b by (simp add: parentsWithin_def)
  fix p assume p: "circle_parent (h[a := (h ! a)\<lparr>circle_parent := r\<rparr>] ! b) = Some p"
  show "p \<in> S"
  proof (cases "b = a")
    case True
    have "a < length h" using pw a by (simp add: parentsWithin_def)
    with p True have "r = Some p" by simp
    with r show ?thesis by (simp add: refWithin_def)
  next
    case False
    with p have "circle_parent (h ! b) = Some p" by simp
    with pw b show ?thesis by (auto simp: parentsWithin_def)
  qed
qed

lemma parentsWithin_parent:
  "parentsWithin S h \<Longrightarrow> a \<in> S \<Longrightarrow> refWithin S (circle_parent (h ! a))"
  by (auto simp: parentsWithin_def refWithin_def split: option.splits)

lemma find_writes:
  assumes "parentsWithin S h" and "refWithin S c" and "find n h c = Some (h', r)"
  shows "writesWithin S h h' \<and> parentsWithin S h' \<and> refWithin S r"
  using assms
proof (induction n arbitrary: h c h' r)
  case 0
  then show ?case by simp
next
  case (Suc n)
  show ?case
  proof (cases c)
    case None
    with Suc.prems show ?thesis by (simp add: writesWithin_refl refWithin_def)
  next
    case (Some a)
    with Suc.prems(2) have a: "a \<in> S" by (simp add: refWithin_def)
    show ?thesis
    proof (cases "circle_parent (h ! a) \<noteq> Some a")
      case False
      with Suc.prems Some a show ?thesis by (auto simp: writesWithin_refl refWithin_def)
    next
      case True
      with Suc.prems(3) Some obtain h1 r1 where
        f: "find n h (circle_parent (h ! a)) = Some (h1, r1)" and
        h': "h' = h1[a := (h1 ! a)\<lparr>circle_parent := r1\<rparr>]" and r: "r = r1"
        by (auto split: option.splits)
      have "refWithin S (circle_parent (h ! a))"
        using Suc.prems(1) a by (rule parentsWithin_parent)
      from Suc.IH [OF Suc.prems(1) this f]
      have w1: "writesWithin S h h1" and p1: "parentsWithin S h1" and r1: "refWithin S r1"
        by simp_all
      have "writesWithin S h1 h'" unfolding h' using a by (rule writesWithin_update)
      with w1 have "writesWithin S h h'" by (rule writesWithin_trans)
      moreover have "parentsWithin S h'" unfolding h' using p1 a r1 by (rule parentsWithin_set_parent)
      ultimately show ?thesis using r r1 by simp
    qed
  qed
qed

lemma findRoot_writes:
  assumes "parentsWithin S h" and "a \<in> S" and "findRoot h a = Some (h', r)"
  shows "writesWithin S h h' \<and> parentsWithin S h' \<and> refWithin S r"
  using find_writes [of S h "Some a" "Suc (length h)" h' r] assms
  by (simp add: findRoot_def refWithin_def)

lemma union_writes:
  assumes pw: "parentsWithin S h" and x: "x \<in> S" and y: "y \<in> S" and u: "union h x y = Some h'"
  shows "writesWithin S h h' \<and> parentsWithin S h'"
proof -
  from u obtain h1 xRoot where f1: "findRoot h x = Some (h1, xRoot)"
    by (auto simp: union_def split: option.splits)
  from u f1 obtain h2 yRoot where f2: "findRoot h1 y = Some (h2, yRoot)"
    by (auto simp: union_def split: option.splits)
  from findRoot_writes [OF pw x f1]
  have w1: "writesWithin S h h1" and p1: "parentsWithin S h1" and rx: "refWithin S xRoot" by simp_all
  from findRoot_writes [OF p1 y f2]
  have w2: "writesWithin S h1 h2" and p2: "parentsWithin S h2" and ry: "refWithin S yRoot" by simp_all
  have w: "writesWithin S h h2" using w1 w2 by (rule writesWithin_trans)
  show ?thesis
  proof (cases xRoot)
    case None
    with u f1 f2 have "h' = h2" by (simp add: union_def)
    with w p2 show ?thesis by simp
  next
    case (Some xr)
    with u f1 f2 have h': "h' = h2[xr := (h2 ! xr)\<lparr>circle_parent := yRoot\<rparr>]" by (simp add: union_def)
    from rx Some have xr: "xr \<in> S" by (simp add: refWithin_def)
    have "writesWithin S h2 h'" unfolding h' using xr by (rule writesWithin_update)
    with w have "writesWithin S h h'" by (rule writesWithin_trans)
    moreover have "parentsWithin S h'" unfolding h' using p2 xr ry by (rule parentsWithin_set_parent)
    ultimately show ?thesis by simp
  qed
qed

lemma fold_invariant:
  assumes "\<And>x s. x \<in> set xs \<Longrightarrow> I s \<Longrightarrow> I (g x s)" and "I s"
  shows "I (fold g xs s)"
  using assms by (induction xs arbitrary: s) auto

lemma writesWithin_length: "writesWithin S h h' \<Longrightarrow> length h' = length h"
  by (simp add: writesWithin_def)

lemma init_parents:
  assumes "\<forall>a\<in>set cs. a < length h"
  shows "\<forall>a\<in>set cs. circle_parent (fold (\<lambda>a h. h[a := (h ! a)\<lparr>circle_parent := Some a\<rparr>]) cs (h :: store) ! a) = Some a"
  using assms
proof (induction cs arbitrary: h)
  case Nil
  then show ?case by simp
next
  case (Cons c cs)
  let ?g = "\<lambda>a h. h[a := (h ! a)\<lparr>circle_parent := Some a\<rparr>]"
  let ?h1 = "h[c := (h ! c)\<lparr>circle_parent := Some c\<rparr>]"
  have ih: "\<forall>a\<in>set cs. circle_parent (fold ?g cs ?h1 ! a) = Some a"
    using Cons.prems by (intro Cons.IH) simp
  show ?case
  proof
    fix a assume a: "a \<in> set (c # cs)"
    show "circle_parent (fold ?g (c # cs) h ! a) = Some a"
    proof (cases "a \<in> set cs")
      case True
      with ih show ?thesis by simp
    next
      case False
      with a have ac: "a = c" by simp
      have "writesWithin (set cs) ?h1 (fold ?g cs ?h1)" by (rule fold_update_writes) simp
      with False have "fold ?g cs ?h1 ! a = ?h1 ! a" by (simp add: writesWithin_def)
      moreover have "c < length h" using Cons.prems by simp
      ultimately show ?thesis using ac by simp
    qed
  qed
qed

lemma unionStep_writes:
  assumes "fst p \<in> S" "snd p \<in> S" "parentsWithin S (fst st)"
  shows "writesWithin S (fst st) (fst (unionStep p st)) \<and> parentsWithin S (fst (unionStep p st))"
proof (cases "snd st")
  case (Some e)
  then show ?thesis using assms by (simp add: unionStep_def writesWithin_refl)
next
  case None
  show ?thesis
  proof (cases "union (fst st) (snd p) (fst p)")
    case None
    with \<open>snd st = None\<close> assms show ?thesis
      by (simp add: unionStep_def Let_def writesWithin_refl)
  next
    case (Some h')
    from union_writes [OF assms(3) assms(2) assms(1) Some]
    show ?thesis using \<open>snd st = None\<close> Some assms(3)
      by (simp add: unionStep_def Let_def writesWithin_refl)
  qed
qed

lemma set_recSet: "set (recSet r k v) \<subseteq> insert (k, v) (set r)"
  by (induction r) (auto split: if_splits)

lemma recGet_mem: "recGet r k = Some v \<Longrightarrow> (k, v) \<in> set r"
  by (simp add: recGet_def map_of_SomeD)

lemma groupsWithin_recSet:
  assumes "groupsWithin S r" and "set v \<subseteq> S"
  shows "groupsWithin S (recSet r k v)"
  unfolding groupsWithin_def
proof
  fix e assume "e \<in> set (recSet r k v)"
  with set_recSet [of r k v] have "e = (k, v) \<or> e \<in> set r" by auto
  then show "set (snd e) \<subseteq> S"
  proof
    assume "e = (k, v)"
    with assms(2) show ?thesis by simp
  next
    assume "e \<in> set r"
    with assms(1) show ?thesis by (simp add: groupsWithin_def)
  qed
qed

lemma groupStep_writes:
  assumes a: "a \<in> S" and pw: "parentsWithin S (fst st)" and gw: "groupsWithin S (fst (snd st))"
  shows "writesWithin S (fst st) (fst (groupStep a st)) \<and> parentsWithin S (fst (groupStep a st)) \<and>
         groupsWithin S (fst (snd (groupStep a st)))"
proof (cases "snd (snd st)")
  case (Some e)
  then show ?thesis using assms by (simp add: groupStep_def writesWithin_refl)
next
  case None
  note n = None
  show ?thesis
  proof (cases "findRoot (fst st) a")
    case None
    with n assms show ?thesis by (simp add: groupStep_def writesWithin_refl)
  next
    case (Some res)
    obtain h r where res: "res = (h, r)" by (cases res)
    from findRoot_writes [OF pw a Some [unfolded res]]
    have w: "writesWithin S (fst st) h" and p: "parentsWithin S h" by simp_all
    have fs: "fst (groupStep a st) = h"
      using n Some res by (simp add: groupStep_def Let_def split: option.splits)
    have "groupsWithin S (fst (snd (groupStep a st)))"
    proof (cases "\<exists>rr q. r = Some rr \<and> circle_parent (h ! rr) = Some q \<and> circle_setid (h ! q) \<noteq> []")
      case False
      then have "fst (snd (groupStep a st)) = fst (snd st)"
        using n Some res by (auto simp: groupStep_def Let_def split: option.splits)
      with gw show ?thesis by simp
    next
      case True
      then obtain rr q where r: "r = Some rr" and q: "circle_parent (h ! rr) = Some q"
        and sid: "circle_setid (h ! q) \<noteq> []" by blast
      let ?k = "circle_setid (h ! q)"
      let ?old = "case recGet (fst (snd st)) ?k of None \<Rightarrow> [] | Some cl \<Rightarrow> cl"
      have eq: "fst (snd (groupStep a st)) = recSet (fst (snd st)) ?k (?old @ [a])"
        using n Some res r q sid by (simp add: groupStep_def Let_def)
      have "set ?old \<subseteq> S"
      proof (cases "recGet (fst (snd st)) ?k")
        case None
        then show ?thesis by simp
      next
        case (Some cl)
        then have "(?k, cl) \<in> set (fst (snd st))" by (rule recGet_mem)
        with gw have "set cl \<subseteq> S" unfolding groupsWithin_def by fastforce
        with Some show ?thesis by simp
      qed
      with a have "set (?old @ [a]) \<subseteq> S" by simp
      with gw show ?thesis unfolding eq by (rule groupsWithin_recSet)
    qed
    with w p fs show ?thesis by simp
  qed
qed

lemma disjointCluster_writes:
  assumes lt: "\<forall>a\<in>set circles. a < length h"
  shows "writesWithin (set circles) h (fst (disjointCluster h circles)) \<and>
         (\<forall>groups. snd (disjointCluster h circles) = Inr groups \<longrightarrow>
            (\<forall>g\<in>set groups. set g \<subseteq> set circles))"
proof -
  let ?S = "set circles"
  let ?h1 = "fold (\<lambda>a h. h[a := (h ! a)\<lparr>circle_parent := Some a\<rparr>]) circles h"
  let ?st2 = "fold unionStep (idPairs circles) (?h1, None)"
  let ?st3 = "fold groupStep circles (fst ?st2, [], None)"
  let ?h4 = "fold (\<lambda>a h. h[a := (h ! a)\<lparr>circle_parent := None\<rparr>]) circles (fst ?st3)"
  have w1: "writesWithin ?S h ?h1" by (rule fold_update_writes) simp
  have p1: "parentsWithin ?S ?h1"
    using init_parents [OF lt] lt writesWithin_length [OF w1]
    by (auto simp: parentsWithin_def)
  have i2: "writesWithin ?S ?h1 (fst ?st2) \<and> parentsWithin ?S (fst ?st2)"
  proof (rule fold_invariant [where I = "\<lambda>s. writesWithin ?S ?h1 (fst s) \<and> parentsWithin ?S (fst s)"])
    fix p and s :: "store \<times> error option"
    assume p: "p \<in> set (idPairs circles)" and s: "writesWithin ?S ?h1 (fst s) \<and> parentsWithin ?S (fst s)"
    from p have "fst p \<in> ?S" "snd p \<in> ?S"
      using set_idPairs_sub [of "fst p" "snd p" circles] by simp_all
    from unionStep_writes [OF this, of s] s
    show "writesWithin ?S ?h1 (fst (unionStep p s)) \<and> parentsWithin ?S (fst (unionStep p s))"
      by (blast intro: writesWithin_trans)
  next
    show "writesWithin ?S ?h1 (fst (?h1, None :: error option)) \<and> parentsWithin ?S (fst (?h1, None :: error option))"
      using p1 by (simp add: writesWithin_refl)
  qed
  have i3: "writesWithin ?S (fst ?st2) (fst ?st3) \<and> parentsWithin ?S (fst ?st3) \<and>
            groupsWithin ?S (fst (snd ?st3))"
  proof (rule fold_invariant [where I = "\<lambda>s. writesWithin ?S (fst ?st2) (fst s) \<and> parentsWithin ?S (fst s) \<and>
            groupsWithin ?S (fst (snd s))"])
    fix a and s :: "store \<times> addr list jsobject \<times> error option"
    assume a: "a \<in> set circles"
      and s: "writesWithin ?S (fst ?st2) (fst s) \<and> parentsWithin ?S (fst s) \<and> groupsWithin ?S (fst (snd s))"
    from groupStep_writes [OF a, of s] s
    show "writesWithin ?S (fst ?st2) (fst (groupStep a s)) \<and> parentsWithin ?S (fst (groupStep a s)) \<and>
            groupsWithin ?S (fst (snd (groupStep a s)))"
      by (blast intro: writesWithin_trans)
  next
    show "writesWithin ?S (fst ?st2) (fst (fst ?st2, [], None :: error option)) \<and>
          parentsWithin ?S (fst (fst ?st2, [], None :: error option)) \<and>
          groupsWithin ?S (fst (snd (fst ?st2, [], None :: error option)))"
      using i2 by (simp add: writesWithin_refl groupsWithin_def)
  qed
  have w4: "writesWithin ?S (fst ?st3) ?h4" by (rule fold_update_writes) simp
  have w2: "writesWithin ?S h (fst ?st2)" using w1 i2 by (blast intro: writesWithin_trans)
  have w3: "writesWithin ?S h (fst ?st3)" using w2 i3 by (blast intro: writesWithin_trans)
  have w5: "writesWithin ?S h ?h4" using w3 w4 by (rule writesWithin_trans)
  have res: "disjointCluster h circles =
     (case snd ?st2 of Some e \<Rightarrow> (fst ?st2, Inl e)
      | None \<Rightarrow> (case snd (snd ?st3) of Some e \<Rightarrow> (fst ?st3, Inl e)
                  | None \<Rightarrow> (?h4, Inr (map snd (objectEntries (fst (snd ?st3)))))))"
    unfolding disjointCluster_def Let_def by (rule refl)
  have a: "writesWithin ?S h (fst (disjointCluster h circles))"
    unfolding res using w2 w3 w5 by (simp split: option.splits)
  have b: "\<forall>g\<in>set groups. set g \<subseteq> ?S" if "snd (disjointCluster h circles) = Inr groups" for groups
  proof -
    from that have "groups = map snd (objectEntries (fst (snd ?st3)))"
      unfolding res by (simp split: option.splits)
    then have "set groups = snd ` set (fst (snd ?st3))"
      by (simp add: set_objectEntries)
    with i3 show ?thesis by (auto simp: groupsWithin_def)
  qed
  from a b show ?thesis by blast
qed

lemma fold_copyStep:
  "fold (copyStep h0) es (h1, cs) =
     (h1 @ map (\<lambda>e. (h0 ! snd e)\<lparr>circle_setid := fst e\<rparr>) es, cs @ [length h1 ..< length h1 + length es])"
proof (induction es arbitrary: h1 cs)
  case Nil
  then show ?case by simp
next
  case (Cons e es)
  have "[length h1 ..< length h1 + length (e # es)] = length h1 # [Suc (length h1) ..< Suc (length h1) + length es]"
    using upt_conv_Cons [of "length h1" "length h1 + Suc (length es)"] by simp
  moreover have "copyStep h0 e (h1, cs) = (h1 @ [(h0 ! snd e)\<lparr>circle_setid := fst e\<rparr>], cs @ [length h1])"
    by (simp add: copyStep_def)
  ultimately show ?case by (simp add: Cons.IH del: upt_Suc)
qed

lemma orientStep_writes:
  assumes g: "set g \<subseteq> S" and cl: "\<forall>c\<in>set (snd st). set (cl_circles c) \<subseteq> S"
  shows "writesWithin S (fst st) (fst (orientStep orientation ord g st)) \<and>
         (\<forall>c\<in>set (snd (orientStep orientation ord g st)). set (cl_circles c) \<subseteq> S)"
  using orientateCircles_writes [OF g, of "fst st" orientation ord] cl g
  by (simp add: orientStep_def Let_def)

lemma addCluster_writes:
  assumes "\<forall>c. cl = Some c \<longrightarrow> set (cl_circles c) \<subseteq> S"
  shows "writesWithin S (pk_store st) (pk_store (addCluster spacing st cl right bottom))"
proof (cases cl)
  case None
  then show ?thesis by (simp add: addCluster_def writesWithin_refl)
next
  case (Some c)
  with assms have sub: "set (cl_circles c) \<subseteq> S" by simp
  have f: "writesWithin S (pk_store st)
      (pk_store (fold (\<lambda>a s. s\<lparr>pk_store := (pk_store s)[a := F a s], pk_circles := pk_circles s @ [a]\<rparr>)
                   (cl_circles c) st))" for F :: "addr \<Rightarrow> packing \<Rightarrow> circle"
  proof (rule fold_invariant [where I = "\<lambda>s. writesWithin S (pk_store st) (pk_store s)"])
    fix a and s :: packing assume "a \<in> set (cl_circles c)" and s: "writesWithin S (pk_store st) (pk_store s)"
    with sub have "a \<in> S" by blast
    then have "writesWithin S (pk_store s) ((pk_store s)[a := F a s])" by (rule writesWithin_update)
    with s show "writesWithin S (pk_store st)
        (pk_store (s\<lparr>pk_store := (pk_store s)[a := F a s], pk_circles := pk_circles s @ [a]\<rparr>))"
      by (auto intro: writesWithin_trans)
  next
    show "writesWithin S (pk_store st) (pk_store st)" by (rule writesWithin_refl)
  qed
  show ?thesis unfolding addCluster_def Let_def using Some
    by (simp add: writesWithin_refl f split: option.splits del: fold_simps)
qed

lemma refreshBounds_store: "pk_store (refreshBounds st) = pk_store st"
  by (simp add: refreshBounds_def split: option.splits)

lemma round_writes:
  assumes "\<forall>c. c1 = Some c \<longrightarrow> set (cl_circles c) \<subseteq> S"
    and "\<forall>c. c2 = Some c \<longrightarrow> set (cl_circles c) \<subseteq> S"
    and "\<forall>c. c3 = Some c \<longrightarrow> set (cl_circles c) \<subseteq> S"
  shows "writesWithin S (pk_store st)
     (pk_store (refreshBounds (addCluster spacing (addCluster spacing (addCluster spacing st
          c1 True False) c2 False True) c3 True True)))"
  unfolding refreshBounds_store
  using addCluster_writes [OF assms(1)] addCluster_writes [OF assms(2)] addCluster_writes [OF assms(3)]
  by (blast intro: writesWithin_trans)

lemma packClusters_writes:
  assumes "\<forall>c\<in>set cls. set (cl_circles c) \<subseteq> S"
  shows "writesWithin S (pk_store st) (pk_store (packClusters spacing st cls))"
  using assms
proof (induction spacing st cls rule: packClusters.induct)
  case (1 spacing st)
  then show ?case by (simp add: writesWithin_refl)
next
  case (2 spacing st c1)
  then show ?case by (simp del: refreshBounds_store add: round_writes)
next
  case (3 spacing st c1 c2)
  then show ?case by (simp del: refreshBounds_store add: round_writes)
next
  case (4 spacing st c1 c2 c3 rest)
  let ?st1 = "refreshBounds (addCluster spacing (addCluster spacing (addCluster spacing st
          (Some c1) True False) (Some c2) False True) (Some c3) True True)"
  have "writesWithin S (pk_store st) (pk_store ?st1)"
    using "4.prems" by (intro round_writes) simp_all
  moreover have "writesWithin S (pk_store ?st1) (pk_store (packClusters spacing ?st1 rest))"
    using "4.prems" by (intro "4.IH") simp
  ultimately show ?case by (simp add: writesWithin_trans)
qed

lemma refreshBounds_circles: "pk_circles (refreshBounds st) = pk_circles st"
  by (simp add: refreshBounds_def split: option.splits)

lemma addCluster_circles:
  assumes "\<forall>c. cl = Some c \<longrightarrow> set (cl_circles c) \<subseteq> S" and "set (pk_circles st) \<subseteq> S"
  shows "set (pk_circles (addCluster spacing st cl right bottom)) \<subseteq> S"
proof (cases cl)
  case None
  with assms show ?thesis by (simp add: addCluster_def)
next
  case (Some c)
  with assms have sub: "set (cl_circles c) \<subseteq> S" by simp
  have f: "set (pk_circles (fold (\<lambda>a s. s\<lparr>pk_store := (pk_store s)[a := F a s], pk_circles := pk_circles s @ [a]\<rparr>)
                   (cl_circles c) st)) \<subseteq> S" for F :: "addr \<Rightarrow> packing \<Rightarrow> circle"
  proof (rule fold_invariant [where I = "\<lambda>s. set (pk_circles s) \<subseteq> S"])
    fix a and s :: packing assume "a \<in> set (cl_circles c)" and s: "set (pk_circles s) \<subseteq> S"
    with sub have "a \<in> S" by blast
    with s show "set (pk_circles (s\<lparr>pk_store := (pk_store s)[a := F a s], pk_circles := pk_circles s @ [a]\<rparr>)) \<subseteq> S"
      by simp
  next
    show "set (pk_circles st) \<subseteq> S" by (rule assms(2))
  qed
  show ?thesis unfolding addCluster_def Let_def using Some assms(2)
    by (simp add: f split: option.splits del: fold_simps)
qed

lemma round_circles:
  assumes "\<forall>c. c1 = Some c \<longrightarrow> set (cl_circles c) \<subseteq> S"
    and "\<forall>c. c2 = Some c \<longrightarrow> set (cl_circles c) \<subseteq> S"
    and "\<forall>c. c3 = Some c \<longrightarrow> set (cl_circles c) \<subseteq> S"
    and "set (pk_circles st) \<subseteq> S"
  shows "set (pk_circles (refreshBounds (addCluster spacing (addCluster spacing (addCluster spacing st
          c1 True False) c2 False True) c3 True True))) \<subseteq> S"
  unfolding refreshBounds_circles
  by (intro addCluster_circles assms)

lemma packClusters_circles:
  assumes "\<forall>c\<in>set cls. set (cl_circles c) \<subseteq> S" and "set (pk_circles st) \<subseteq> S"
  shows "set (pk_circles (packClusters spacing st cls)) \<subseteq> S"
  using assms
proof (induction spacing st cls rule: packClusters.induct)
  case (1 spacing st)
  then show ?case by simp
next
  case (2 spacing st c1)
  then show ?case by (simp del: refreshBounds_circles add: round_circles)
next
  case (3 spacing st c1 c2)
  then show ?case by (simp del: refreshBounds_circles add: round_circles)
next
  case (4 spacing st c1 c2 c3 rest)
  let ?st1 = "refreshBounds (addCluster spacing (addCluster spacing (addCluster spacing st
          (Some c1) True False) (Some c2) False True) (Some c3) True True)"
  have "set (pk_circles ?st1) \<subseteq> S"
    using "4.prems" by (intro round_circles) simp_all
  then have "set (pk_circles (packClusters spacing ?st1 rest)) \<subseteq> S"
    using "4.prems" by (intro "4.IH") simp_all
  then show ?case by simp
qed

lemma normalizeSolution_frame:
  "writesWithin {length h ..< length h + length (objectEntries solution)}
     (h @ map (\<lambda>e. (h ! snd e)\<lparr>circle_setid := fst e\<rparr>) (objectEntries solution))
     (fst (normalizeSolution h solution orientation0 ord)) \<and>
   (\<forall>refs. snd (normalizeSolution h solution orientation0 ord) = Inr refs \<longrightarrow>
      snd ` set refs \<subseteq> {length h ..< length h + length (objectEntries solution)})"
proof -
  let ?es = "objectEntries solution"
  let ?hc = "h @ map (\<lambda>e. (h ! snd e)\<lparr>circle_setid := fst e\<rparr>) ?es"
  let ?circles = "[length h ..< length h + length ?es]"
  let ?S = "{length h ..< length h + length ?es}"
  let ?o = "if orientation0 = Null then Defined (pi / 2) else orientation0"
  have S: "set ?circles = ?S" by simp
  have cp: "fold (copyStep h) ?es (h, []) = (?hc, ?circles)"
    by (simp add: fold_copyStep)
  have lt: "\<forall>a\<in>set ?circles. a < length ?hc" by simp
  obtain h1 r where dc: "disjointCluster ?hc ?circles = (h1, r)" by (cases "disjointCluster ?hc ?circles")
  from disjointCluster_writes [OF lt] dc
  have w1: "writesWithin ?S ?hc h1"
    and gs: "\<And>groups. r = Inr groups \<Longrightarrow> \<forall>g\<in>set groups. set g \<subseteq> ?S"
    unfolding S by simp_all
  show ?thesis
  proof (cases r)
    case (Inl e)
    then have "normalizeSolution h solution orientation0 ord = (h1, Inl e)"
      by (simp add: normalizeSolution_def Let_def cp dc del: upt_Suc)
    with w1 show ?thesis by simp
  next
    case (Inr groups)
    let ?or = "fold (orientStep ?o ord) groups (h1, [])"
    have i: "writesWithin ?S h1 (fst ?or) \<and> (\<forall>c\<in>set (snd ?or). set (cl_circles c) \<subseteq> ?S)"
    proof (rule fold_invariant [where I = "\<lambda>s. writesWithin ?S h1 (fst s) \<and> (\<forall>c\<in>set (snd s). set (cl_circles c) \<subseteq> ?S)"])
      fix g and s :: "store \<times> cluster list"
      assume g: "g \<in> set groups"
        and s: "writesWithin ?S h1 (fst s) \<and> (\<forall>c\<in>set (snd s). set (cl_circles c) \<subseteq> ?S)"
      from g gs [OF Inr] have "set g \<subseteq> ?S" by blast
      from orientStep_writes [OF this, of s ?o ord] s
      show "writesWithin ?S h1 (fst (orientStep ?o ord g s)) \<and>
            (\<forall>c\<in>set (snd (orientStep ?o ord g s)). set (cl_circles c) \<subseteq> ?S)"
        by (blast intro: writesWithin_trans)
    next
      show "writesWithin ?S h1 (fst (h1, [] :: cluster list)) \<and>
            (\<forall>c\<in>set (snd (h1, [] :: cluster list)). set (cl_circles c) \<subseteq> ?S)"
        by (simp add: writesWithin_refl)
    qed
    have w2: "writesWithin ?S ?hc (fst ?or)" using w1 i by (blast intro: writesWithin_trans)
    let ?cls = "sortBy clusterOrder (snd ?or)"
    have cls: "\<forall>c\<in>set ?cls. set (cl_circles c) \<subseteq> ?S" using i by (simp add: set_sortBy)
    have eq: "normalizeSolution h solution orientation0 ord =
      (case ?cls of
         [] \<Rightarrow> (fst ?or, Inl TypeError)
       | largestCluster # others \<Rightarrow>
           (case cl_bounds largestCluster of
              None \<Rightarrow> (fst ?or, Inl TypeError)
            | Some returnBounds \<Rightarrow>
                let spacing = (range_max (xRange returnBounds) - range_min (xRange returnBounds)) / 50;
                    packed = packClusters spacing
                               \<lparr>pk_store = fst ?or, pk_circles = ?circles,
                                pk_returnBounds = returnBounds\<rparr> others
                in (pk_store packed,
                    Inr (fold (\<lambda>a ret. recSet ret (circle_setid (pk_store packed ! a)) a)
                           (pk_circles packed) []))))"
      unfolding normalizeSolution_def Let_def cp fst_conv snd_conv dc Inr prod.case sum.case
      by (rule refl)
    show ?thesis
    proof (cases ?cls)
      case Nil
      then show ?thesis unfolding eq using w2 by simp
    next
      case (Cons largest others)
      show ?thesis
      proof (cases "cl_bounds largest")
        case None
        with Cons show ?thesis unfolding eq using w2 by simp
      next
        case (Some rb)
        let ?st = "\<lparr>pk_store = fst ?or, pk_circles = ?circles, pk_returnBounds = rb\<rparr>"
        let ?sp = "(range_max (xRange rb) - range_min (xRange rb)) / 50"
        let ?pk = "packClusters ?sp ?st others"
        have oth: "\<forall>c\<in>set others. set (cl_circles c) \<subseteq> ?S" using cls Cons by simp
        from packClusters_writes [OF oth, of ?st ?sp]
        have "writesWithin ?S (fst ?or) (pk_store ?pk)" by simp
        with w2 have w3: "writesWithin ?S ?hc (pk_store ?pk)"
          by (rule writesWithin_trans)
        have "set (pk_circles ?st) \<subseteq> ?S" by simp
        with oth have pc: "set (pk_circles ?pk) \<subseteq> ?S" by (rule packClusters_circles)
        have "snd ` set (fold (\<lambda>a ret. recSet ret (F a) a) cs []) \<subseteq> set cs"
          for F :: "addr \<Rightarrow> string" and cs
        proof (rule fold_invariant [where I = "\<lambda>ret. snd ` set ret \<subseteq> set cs"])
          fix a and ret :: circleRefs assume "a \<in> set cs" and "snd ` set ret \<subseteq> set cs"
          then have "snd ` insert (F a, a) (set ret) \<subseteq> set cs" by simp
          with image_mono [OF set_recSet [of ret "F a" a], of snd]
          show "snd ` set (recSet ret (F a) a) \<subseteq> set cs" by (rule subset_trans)
        next
          show "snd ` set ([] :: circleRefs) \<subseteq> set cs" by simp
        qed
        from this [of "\<lambda>a. circle_setid (pk_store ?pk ! a)" "pk_circles ?pk"] pc
        have "snd ` set (fold (\<lambda>a ret. recSet ret (circle_setid (pk_store ?pk ! a)) a)
                          (pk_circles ?pk) []) \<subseteq> ?S"
          by (rule subset_trans)
        with w3 show ?thesis unfolding eq Cons using Some by (simp add: Let_def)
      qed
    qed
  qed
qed

lemma scaleStep_prefix:
  assumes "take (length h) (fst st) = h \<and> length h \<le> length (fst st)"
  shows "take (length h) (fst (scaleStep f e st)) = h \<and> length h \<le> length (fst (scaleStep f e st))"
  using assms by (simp add: scaleStep_def)

lemma fold_scaleStep_prefix:
  "take (length h) (fst (fold (scaleStep g) es (h, []))) = h"
proof -
  have "take (length h) (fst (fold (scaleStep g) es (h, []))) = h \<and>
        length h \<le> length (fst (fold (scaleStep g) es (h, [])))"
  proof (rule fold_invariant [where I = "\<lambda>s. take (length h) (fst s) = h \<and> length h \<le> length (fst s)"])
    fix e and s :: "store \<times> circleRefs"
    assume "take (length h) (fst s) = h \<and> length h \<le> length (fst s)"
    then show "take (length h) (fst (scaleStep g e s)) = h \<and> length h \<le> length (fst (scaleStep g e s))"
      by (rule scaleStep_prefix)
  next
    show "take (length h) (fst (h, [] :: circleRefs)) = h \<and> length h \<le> length (fst (h, [] :: circleRefs))"
      by simp
  qed
  then show ?thesis by simp
qed

lemma scaleSolution_prefix: "take (length h) (fst (scaleSolution h solution w ht p)) = h"
  unfolding scaleSolution_def Let_def
  by (simp split: option.splits del: fold_simps add: fold_scaleStep_prefix)

lemma freshRefs_iff: "freshRefs h h' refs \<longleftrightarrow> (\<forall>e\<in>set refs. length h \<le> snd e \<and> snd e < length h')"
  by (simp add: freshRefs_def list_all_iff)

lemma scaleStep_fresh:
  assumes "length h \<le> length (fst st) \<and> freshRefs h (fst st) (snd st)"
  shows "length h \<le> length (fst (scaleStep f e st)) \<and>
         freshRefs h (fst (scaleStep f e st)) (snd (scaleStep f e st))"
proof (cases "fst e = []")
  case True
  with assms show ?thesis by (simp add: scaleStep_def)
next
  case False
  have "set (recSet (snd st) (fst e) (length (fst st))) \<subseteq> insert (fst e, length (fst st)) (set (snd st))"
    by (rule set_recSet)
  with assms False show ?thesis
    by (auto simp: scaleStep_def freshRefs_iff less_Suc_eq)
qed

lemma fold_scaleStep_fresh:
  "freshRefs h (fst (fold (scaleStep g) es (h, []))) (snd (fold (scaleStep g) es (h, [])))"
proof -
  have "length h \<le> length (fst (fold (scaleStep g) es (h, []))) \<and>
        freshRefs h (fst (fold (scaleStep g) es (h, []))) (snd (fold (scaleStep g) es (h, [])))"
  proof (rule fold_invariant [where I = "\<lambda>s. length h \<le> length (fst s) \<and> freshRefs h (fst s) (snd s)"])
    fix e and s :: "store \<times> circleRefs"
    assume "length h \<le> length (fst s) \<and> freshRefs h (fst s) (snd s)"
    then show "length h \<le> length (fst (scaleStep g e s)) \<and>
               freshRefs h (fst (scaleStep g e s)) (snd (scaleStep g e s))"
      by (rule scaleStep_fresh)
  next
    show "length h \<le> length (fst (h, [] :: circleRefs)) \<and>
          freshRefs h (fst (h, [] :: circleRefs)) (snd (h, [] :: circleRefs))"
      by (simp add: freshRefs_def)
  qed
  then show ?thesis by simp
qed

lemma scaleSolution_fresh:
  assumes "\<forall>b. getBoundingBox (circlesOf h solution) = Some b \<longrightarrow> \<not> degenerate b"
  shows "freshRefs h (fst (scaleSolution h solution w ht p)) (snd (scaleSolution h solution w ht p))"
proof (cases "getBoundingBox (circlesOf h solution)")
  case None
  then show ?thesis by (simp add: scaleSolution_def circlesOf_def Let_def freshRefs_def)
next
  case (Some b)
  with assms have "\<not> degenerate b" by simp
  with Some show ?thesis
    by (simp add: scaleSolution_nondegenerate fold_scaleStep_fresh del: fold_simps)
qed

text \<open>
  An evaluation: two overlapping circles are copied, the copies are moved so that the first
  one is at the origin, and the result refers to the copies; the input circles stay where
  they were.
\<close>

lemma normalizeSolution_example:
  "normalizeSolution [mkCircle ''A'' 5 5 2, mkCircle ''B'' 5 7 1] [(''A'', 0), (''B'', 1)] (Defined 0) Undefined =
     ([mkCircle ''A'' 5 5 2, mkCircle ''B'' 5 7 1, mkCircle ''A'' 0 0 2, mkCircle ''B'' 0 2 1],
      Inr [(''A'', 2), (''B'', 3)])"
proof -
  let ?h = "[mkCircle ''A'' 5 5 2, mkCircle ''B'' 5 7 1]"
  let ?hc = "[mkCircle ''A'' 5 5 2, mkCircle ''B'' 5 7 1, mkCircle ''A'' 5 5 2, mkCircle ''B'' 5 7 1]"
  let ?ho = "[mkCircle ''A'' 5 5 2, mkCircle ''B'' 5 7 1, mkCircle ''A'' 0 0 2, mkCircle ''B'' 0 2 1]"
  have cp: "fold (copyStep ?h) (objectEntries [(''A'', 0), (''B'', 1)]) (?h, []) = (?hc, [2, 3])"
    by (simp add: objectEntries_plain copyStep_def mkCircle_def)
  have d4: "distance (5, 5) (5, 7) = 2" by (simp add: distance_def)
  have dc: "disjointCluster ?hc [2, 3] = (?hc, Inr [[2, 3]])"
    by (simp add: disjointCluster_def Let_def unionStep_def union_def findRoot_def groupStep_def
        centre_def mkCircle_def d4 recGet_def objectEntries_plain)
  have d2: "distance (0, 0) (0, 2) = 2" by (simp add: distance_def)
  have oc: "orientateCircles ?hc [2, 3] (Defined 0) Undefined = (?ho, [2, 3])"
    by (simp add: orientateCircles_def Let_def sortCircles_def shiftCircles_def nudgeSubset_def
        rotateCircles_def mirrorCircles_def centre_def mkCircle_def d2 atan2_def orZero_def)
  have os: "fold (orientStep (Defined 0) Undefined) [[2, 3]] (?hc, []) =
        (?ho, [\<lparr>cl_circles = [2, 3], cl_size = 20,
                cl_bounds = Some \<lparr>xRange = \<lparr>range_max = 2, range_min = - 2\<rparr>,
                                  yRange = \<lparr>range_max = 3, range_min = - 2\<rparr>\<rparr>\<rparr>])"
  proof -
    have "orientStep (Defined 0) Undefined [2, 3] (?hc, []) =
        (?ho, [\<lparr>cl_circles = [2, 3], cl_size = 20,
                cl_bounds = Some \<lparr>xRange = \<lparr>range_max = 2, range_min = - 2\<rparr>,
                                  yRange = \<lparr>range_max = 3, range_min = - 2\<rparr>\<rparr>\<rparr>])"
      unfolding orientStep_def Let_def fst_conv snd_conv oc
      by (simp add: getBoundingBox_def minMax_def mkCircle_def)
    then show ?thesis by simp
  qed
  show ?thesis
    by (simp only: normalizeSolution_def Let_def cp fst_conv snd_conv jsvalue.distinct if_False dc
          prod.case sum.case os,
        simp add: sortBy_def mkCircle_def)
qed

text \<open>
  C8 (amended). \<^verbatim>\<open>normalizeSolution\<close> and \<^verbatim>\<open>scaleSolution\<close> never assign to a circle of the
  record passed to them: every object that was in the store before the call, so every circle
  of the caller's record, is the same object with the same fields after the call, whether the
  call returns or throws. The record that \<^verbatim>\<open>normalizeSolution\<close> returns refers only to
  objects made during the call, and so does the record that \<^verbatim>\<open>scaleSolution\<close> returns,
  unless the bounding box is degenerate: then \<^verbatim>\<open>scaleSolution\<close> returns the caller's own
  record, with the caller's circles in it.
\<close>

theorem layout_input_not_mutated:
  "take (length h) (fst (normalizeSolution h solution orientation orientationOrder)) = h \<and>
   take (length h) (fst (scaleSolution h solution width height padding)) = h \<and>
   (\<forall>refs. snd (normalizeSolution h solution orientation orientationOrder) = Inr refs \<longrightarrow>
      freshRefs h (fst (normalizeSolution h solution orientation orientationOrder)) refs) \<and>
   ((\<forall>b. getBoundingBox (circlesOf h solution) = Some b \<longrightarrow> \<not> degenerate b) \<longrightarrow>
      freshRefs h (fst (scaleSolution h solution width height padding))
        (snd (scaleSolution h solution width height padding))) \<and>
   (\<forall>b. getBoundingBox (circlesOf h solution) = Some b \<and> degenerate b \<longrightarrow>
      scaleSolution h solution width height padding = (h, solution))"
proof (intro conjI allI impI)
  let ?S = "{length h ..< length h + length (objectEntries solution)}"
  let ?hc = "h @ map (\<lambda>e. (h ! snd e)\<lparr>circle_setid := fst e\<rparr>) (objectEntries solution)"
  let ?r = "fst (normalizeSolution h solution orientation orientationOrder)"
  have w: "writesWithin ?S ?hc ?r"
    using normalizeSolution_frame [of h solution orientation orientationOrder] by (rule conjunct1)
  then have len: "length ?r = length ?hc" by (rule writesWithin_length)
  have "take (length h) ?r = take (length h) ?hc"
  proof (rule nth_take_lemma)
    show "length h \<le> length ?r" using len by simp
    show "length h \<le> length ?hc" by simp
    fix a
    show "a < length h \<longrightarrow> ?r ! a = ?hc ! a"
    proof
      assume "a < length h"
      then have "a \<notin> ?S" by simp
      with w show "?r ! a = ?hc ! a" by (simp add: writesWithin_def)
    qed
  qed
  then show "take (length h) ?r = h" by simp
  fix refs assume "snd (normalizeSolution h solution orientation orientationOrder) = Inr refs"
  with normalizeSolution_frame [of h solution orientation orientationOrder]
  have "snd ` set refs \<subseteq> ?S" by blast
  then show "freshRefs h ?r refs" unfolding freshRefs_iff len by auto
next
  show "take (length h) (fst (scaleSolution h solution width height padding)) = h"
    by (rule scaleSolution_prefix)
next
  assume "\<forall>b. getBoundingBox (circlesOf h solution) = Some b \<longrightarrow> \<not> degenerate b"
  then show "freshRefs h (fst (scaleSolution h solution width height padding))
        (snd (scaleSolution h solution width height padding))"
    by (rule scaleSolution_fresh)
next
  fix b assume "getBoundingBox (circlesOf h solution) = Some b \<and> degenerate b"
  then show "scaleSolution h solution width height padding = (h, solution)"
    by (simp add: scaleSolution_degenerate)
qed

theorem layout_input_not_mutated_witness:
  "snd (normalizeSolution [mkCircle ''A'' 5 5 2, mkCircle ''B'' 5 7 1] [(''A'', 0), (''B'', 1)]
          (Defined 0) Undefined) = Inr [(''A'', 2), (''B'', 3)] \<and>
   freshRefs [mkCircle ''A'' 5 5 2, mkCircle ''B'' 5 7 1]
     (fst (normalizeSolution [mkCircle ''A'' 5 5 2, mkCircle ''B'' 5 7 1] [(''A'', 0), (''B'', 1)]
             (Defined 0) Undefined))
     [(''A'', 2), (''B'', 3)] \<and>
   getBoundingBox (circlesOf [mkCircle ''A'' 5 5 2, mkCircle ''B'' 5 7 1] [(''A'', 0), (''B'', 1)]) =
     Some \<lparr>xRange = \<lparr>range_max = 7, range_min = 3\<rparr>, yRange = \<lparr>range_max = 8, range_min = 3\<rparr>\<rparr> \<and>
   \<not> degenerate \<lparr>xRange = \<lparr>range_max = 7, range_min = 3\<rparr>, yRange = \<lparr>range_max = 8, range_min = 3\<rparr>\<rparr> \<and>
   freshRefs [mkCircle ''A'' 5 5 2, mkCircle ''B'' 5 7 1]
     (fst (scaleSolution [mkCircle ''A'' 5 5 2, mkCircle ''B'' 5 7 1] [(''A'', 0), (''B'', 1)] 300 300 0))
     (snd (scaleSolution [mkCircle ''A'' 5 5 2, mkCircle ''B'' 5 7 1] [(''A'', 0), (''B'', 1)] 300 300 0)) \<and>
   getBoundingBox (circlesOf [mkCircle ''A'' 5 5 0] [(''A'', 0)]) =
     Some \<lparr>xRange = \<lparr>range_max = 5, range_min = 5\<rparr>, yRange = \<lparr>range_max = 5, range_min = 5\<rparr>\<rparr> \<and>
   degenerate \<lparr>xRange = \<lparr>range_max = 5, range_min = 5\<rparr>, yRange = \<lparr>range_max = 5, range_min = 5\<rparr>\<rparr> \<and>
   scaleSolution [mkCircle ''A'' 5 5 0] [(''A'', 0)] 300 300 0 = ([mkCircle ''A'' 5 5 0], [(''A'', 0)])"
proof -
  let ?h = "[mkCircle ''A'' 5 5 2, mkCircle ''B'' 5 7 1]"
  let ?s = "[(''A'', 0 :: nat), (''B'', 1)]"
  let ?b = "\<lparr>xRange = \<lparr>range_max = 7, range_min = 3\<rparr>, yRange = \<lparr>range_max = 8, range_min = 3\<rparr>\<rparr>"
  let ?hz = "[mkCircle ''A'' 5 5 0]"
  let ?sz = "[(''A'', 0 :: nat)]"
  let ?bz = "\<lparr>xRange = \<lparr>range_max = 5, range_min = 5\<rparr>, yRange = \<lparr>range_max = 5, range_min = 5\<rparr>\<rparr>"
  note t = layout_input_not_mutated [of ?h ?s "Defined 0" Undefined 300 300 0]
  note tz = layout_input_not_mutated [of ?hz ?sz "Defined 0" Undefined 300 300 0]
  have n: "snd (normalizeSolution ?h ?s (Defined 0) Undefined) = Inr [(''A'', 2), (''B'', 3)]"
    by (simp only: normalizeSolution_example snd_conv)
  from t n have f1: "freshRefs ?h (fst (normalizeSolution ?h ?s (Defined 0) Undefined)) [(''A'', 2), (''B'', 3)]"
    by blast
  have bb: "getBoundingBox (circlesOf ?h ?s) = Some ?b"
    by (simp add: getBoundingBox_def circlesOf_def objectEntries_plain minMax_def mkCircle_def)
  have nd: "\<not> degenerate ?b" by (simp add: degenerate_def)
  from bb nd have "\<forall>b. getBoundingBox (circlesOf ?h ?s) = Some b \<longrightarrow> \<not> degenerate b" by simp
  with t have f2: "freshRefs ?h (fst (scaleSolution ?h ?s 300 300 0)) (snd (scaleSolution ?h ?s 300 300 0))"
    by blast
  have bz: "getBoundingBox (circlesOf ?hz ?sz) = Some ?bz"
    by (simp add: getBoundingBox_def circlesOf_def objectEntries_plain minMax_def mkCircle_def)
  have dz: "degenerate ?bz" by (simp add: degenerate_def)
  from tz bz dz have r: "scaleSolution ?hz ?sz 300 300 0 = (?hz, ?sz)" by blast
  from n f1 bb nd f2 bz dz r show ?thesis by (intro conjI)
qed

text \<open>
  The claim as stated fails in its last clause: for a single circle of radius 0 the bounding
  box is degenerate, and \<^verbatim>\<open>scaleSolution\<close> returns the record it was given, which refers
  to the caller's circle and not to a copy.
\<close>

theorem scaleSolution_returns_input_counterexample:
  "scaleSolution [mkCircle ''A'' 5 5 0] [(''A'', 0)] 300 300 0 = ([mkCircle ''A'' 5 5 0], [(''A'', 0)]) \<and>
   \<not> freshRefs [mkCircle ''A'' 5 5 0]
        (fst (scaleSolution [mkCircle ''A'' 5 5 0] [(''A'', 0)] 300 300 0))
        (snd (scaleSolution [mkCircle ''A'' 5 5 0] [(''A'', 0)] 300 300 0))"
proof -
  have "scaleSolution [mkCircle ''A'' 5 5 0] [(''A'', 0)] 300 300 0 = ([mkCircle ''A'' 5 5 0], [(''A'', 0)])"
    by (simp add: scaleSolution_def getBoundingBox_def objectEntries_plain minMax_def mkCircle_def Let_def)
  then show ?thesis by (simp add: freshRefs_def)
qed

section \<open>orientateCircles without an orientation order\<close>


text \<open>
  In general the array keeps its order when no orientation order is supplied; only an
  explicit \<^verbatim>\<open>null\<close> sorts the array above by radius, largest first.
\<close>

lemma orientateCircles_undefined_order_array:
  "snd (orientateCircles h circles orientation Undefined) = circles"
  by (simp add: orientateCircles_def Let_def sortCircles_def)

lemma orientateCircles_null_order_sorts:
  "snd (orientateCircles [mkCircle ''A'' 5 5 1, mkCircle ''B'' 8 5 2] [0, 1] (Defined theta) Null) = [1, 0]"
  by (simp add: orientateCircles_def Let_def sortCircles_def sortBy_def mkCircle_def)

section \<open>Properties of circleOverlap and distanceFromIntersectArea\<close>

text \<open>The overlap of two circles is strictly decreasing in the distance where the lens formula applies.\<close>

lemma circleArea_segment: "r \<noteq> 0 \<Longrightarrow> circleArea r (r - h) = segmentArea r h"
proof -
  assume r: "r \<noteq> 0"
  have "1 - (r - h) / r = h / r" using r by (simp add: field_simps)
  moreover have "(r - h) * (2 * r - (r - h)) = r * r - h * h" by (simp add: algebra_simps)
  ultimately show ?thesis by (simp add: circleArea_def segmentArea_def)
qed

lemma segment_deriv:
  assumes r: "0 < r" and h: "- r < h" "h < r"
  shows "DERIV (segmentArea r) h :> - 2 * sqrt (r * r - h * h)"
proof -
  have q: "0 < r * r - h * h"
  proof -
    have "r * r - h * h = (r - h) * (r + h)" by (simp add: algebra_simps)
    moreover have "0 < (r - h) * (r + h)" using h by (intro mult_pos_pos) simp_all
    ultimately show ?thesis by simp
  qed
  define s where "s = sqrt (r * r - h * h)"
  have s: "0 < s" "s * s = r * r - h * h" using q by (simp_all add: s_def)
  have b: "- 1 < h / r" "h / r < 1" using r h by (simp_all add: field_simps)
  have s1: "sqrt (1 - (h / r)\<^sup>2) = s / r"
  proof -
    have "1 - (h / r)\<^sup>2 = (r * r - h * h) / (r * r)" using r by (simp add: field_simps power2_eq_square)
    then have "sqrt (1 - (h / r)\<^sup>2) = sqrt (r * r - h * h) / sqrt (r * r)" by (simp add: real_sqrt_divide)
    then show ?thesis using r by (simp add: s_def)
  qed
  have d1: "DERIV (\<lambda>h. arccos (h / r)) h :> inverse (- sqrt (1 - (h / r)\<^sup>2)) * (1 / r)"
    by (rule DERIV_chain2 [where f = arccos and g = "\<lambda>h. h / r" and x = h, OF DERIV_arccos [OF b]])
       (use r in \<open>auto intro!: derivative_eq_intros\<close>)
  have d2: "DERIV (\<lambda>h. sqrt (r * r - h * h)) h :> inverse (sqrt (r * r - h * h)) / 2 * (- (h + h))"
    by (rule DERIV_chain2 [where f = sqrt and g = "\<lambda>h. r * r - h * h" and x = h, OF DERIV_real_sqrt [OF q]])
       (auto intro!: derivative_eq_intros)
  have der: "DERIV (\<lambda>h. r * r * arccos (h / r) - h * sqrt (r * r - h * h)) h :>
          r * r * (inverse (- sqrt (1 - (h / r)\<^sup>2)) * (1 / r))
          - (1 * sqrt (r * r - h * h) + inverse (sqrt (r * r - h * h)) / 2 * (- (h + h)) * h)"
    by (intro derivative_intros DERIV_cmult d1 d2 DERIV_mult DERIV_ident)
  have eq: "r * r * (inverse (- sqrt (1 - (h / r)\<^sup>2)) * (1 / r))
          - (1 * sqrt (r * r - h * h) + inverse (sqrt (r * r - h * h)) / 2 * (- (h + h)) * h)
          = - 2 * sqrt (r * r - h * h)"
  proof -
    have "r * r * (inverse (- (s / r)) * (1 / r)) - (1 * s + inverse s / 2 * (- (h + h)) * h)
          = (- (r * r) + h * h) / s - s"
      using r s(1) by (simp add: field_simps)
    also have "\<dots> = - (s * s) / s - s" using s(2) by simp
    also have "\<dots> = - 2 * s" using s(1) by simp
    finally show ?thesis unfolding s1 s_def [symmetric] .
  qed
  from der [unfolded eq] show ?thesis unfolding segmentArea_def [abs_def] .
qed

lemma circleOverlap_lens:
  assumes "0 < r1" "0 < r2" "\<bar>r1 - r2\<bar> < d" "d < r1 + r2"
  shows "circleOverlap r1 r2 d = lensArea r1 r2 d"
proof -
  have "circleOverlap r1 r2 d =
        circleArea r1 (r1 - chordOffset r1 r2 d) + circleArea r2 (r2 - chordOffset r2 r1 d)"
    using assms by (simp add: circleOverlap_def chordOffset_def Let_def)
  then show ?thesis using assms by (simp add: circleArea_segment lensArea_def)
qed

lemma chord_square:
  assumes "d \<noteq> 0"
  shows "4 * (d * d) * (r1 * r1 - chordOffset r1 r2 d * chordOffset r1 r2 d) =
         ((r1 + r2) * (r1 + r2) - d * d) * (d * d - (r1 - r2) * (r1 - r2))"
proof -
  have "2 * d * chordOffset r1 r2 d = d * d - r2 * r2 + r1 * r1"
    using assms by (simp add: chordOffset_def)
  then have "4 * (d * d) * (chordOffset r1 r2 d * chordOffset r1 r2 d) =
             (d * d - r2 * r2 + r1 * r1) * (d * d - r2 * r2 + r1 * r1)"
    by (metis (no_types, opaque_lifting) mult.assoc mult.commute mult.left_commute mult_2 numeral_Bit0)
  then show ?thesis by (simp add: algebra_simps)
qed

lemma chord_inside:
  assumes r: "0 < r1" "0 < r2" and d: "\<bar>r1 - r2\<bar> < d" "d < r1 + r2"
  shows "0 < r1 * r1 - chordOffset r1 r2 d * chordOffset r1 r2 d"
proof -
  have d0: "0 < d" using d by linarith
  have "0 < (r1 + r2) * (r1 + r2) - d * d"
  proof -
    have "d * d < (r1 + r2) * (r1 + r2)" using d0 d by (intro mult_strict_mono) simp_all
    then show ?thesis by simp
  qed
  moreover have "0 < d * d - (r1 - r2) * (r1 - r2)"
  proof -
    have "\<bar>r1 - r2\<bar> * \<bar>r1 - r2\<bar> < d * d" using d0 d by (intro mult_strict_mono') simp_all
    then show ?thesis by (simp add: abs_mult_self_eq)
  qed
  ultimately have "0 < 4 * (d * d) * (r1 * r1 - chordOffset r1 r2 d * chordOffset r1 r2 d)"
    using chord_square [of d r1 r2] d0 by simp
  moreover have "0 < 4 * (d * d)" using d0 by simp
  ultimately show ?thesis by (simp add: zero_less_mult_iff)
qed

lemma chord_bounds:
  assumes r: "0 < r1" "0 < r2" and d: "\<bar>r1 - r2\<bar> < d" "d < r1 + r2"
  shows "- r1 < chordOffset r1 r2 d \<and> chordOffset r1 r2 d < r1"
proof -
  let ?h = "chordOffset r1 r2 d"
  have "?h * ?h < r1 * r1" using chord_inside [OF assms] by simp
  then have "sqrt (?h * ?h) < sqrt (r1 * r1)" by (simp only: real_sqrt_less_iff)
  then have "\<bar>?h\<bar> < \<bar>r1\<bar>" by (simp only: real_sqrt_abs2)
  then show ?thesis using r by (simp add: abs_less_iff)
qed

lemma chord_deriv:
  assumes "d \<noteq> 0"
  shows "DERIV (chordOffset r1 r2) d :> 1 / 2 - (r1 * r1 - r2 * r2) / (2 * (d * d))"
  unfolding chordOffset_def [abs_def]
  by (rule derivative_eq_intros refl | use assms in \<open>simp add: field_simps\<close>)+

lemma chord_sum: "d \<noteq> 0 \<Longrightarrow> chordOffset r1 r2 d + chordOffset r2 r1 d = d"
  by (simp add: chordOffset_def field_simps)

lemma chord_same_height:
  assumes "d \<noteq> 0"
  shows "r1 * r1 - chordOffset r1 r2 d * chordOffset r1 r2 d =
         r2 * r2 - chordOffset r2 r1 d * chordOffset r2 r1 d"
proof -
  have "4 * (d * d) * (r1 * r1 - chordOffset r1 r2 d * chordOffset r1 r2 d) =
        4 * (d * d) * (r2 * r2 - chordOffset r2 r1 d * chordOffset r2 r1 d)"
    unfolding chord_square [OF assms] by (simp add: algebra_simps)
  then show ?thesis using assms by simp
qed

lemma lens_deriv:
  assumes r: "0 < r1" "0 < r2" and d: "\<bar>r1 - r2\<bar> < d" "d < r1 + r2"
  shows "\<exists>y. DERIV (lensArea r1 r2) d :> y \<and> y < 0"
proof -
  have d0: "d \<noteq> 0" using d by linarith
  have d': "\<bar>r2 - r1\<bar> < d" "d < r2 + r1" using d by simp_all
  let ?h1 = "chordOffset r1 r2 d" and ?h2 = "chordOffset r2 r1 d"
  let ?q = "r1 * r1 - ?h1 * ?h1"
  have q: "0 < ?q" using chord_inside [OF r d] .
  have q2: "r2 * r2 - ?h2 * ?h2 = ?q" using chord_same_height [OF d0, of r1 r2] by simp
  have b1: "- r1 < ?h1" "?h1 < r1" using chord_bounds [OF r d] by simp_all
  have b2: "- r2 < ?h2" "?h2 < r2" using chord_bounds [OF r(2) r(1) d'] by simp_all
  have s1: "DERIV (\<lambda>d. segmentArea r1 (chordOffset r1 r2 d)) d :>
              (- 2 * sqrt ?q) * (1 / 2 - (r1 * r1 - r2 * r2) / (2 * (d * d)))"
    by (rule DERIV_chain2 [where f = "segmentArea r1" and g = "chordOffset r1 r2" and x = d,
          OF segment_deriv [OF r(1) b1] chord_deriv [OF d0]])
  have s2: "DERIV (\<lambda>d. segmentArea r2 (chordOffset r2 r1 d)) d :>
              (- 2 * sqrt ?q) * (1 / 2 - (r2 * r2 - r1 * r1) / (2 * (d * d)))"
    using DERIV_chain2 [where f = "segmentArea r2" and g = "chordOffset r2 r1" and x = d,
          OF segment_deriv [OF r(2) b2] chord_deriv [OF d0]]
    unfolding q2 .
  have "DERIV (lensArea r1 r2) d :>
          (- 2 * sqrt ?q) * (1 / 2 - (r1 * r1 - r2 * r2) / (2 * (d * d))) +
          (- 2 * sqrt ?q) * (1 / 2 - (r2 * r2 - r1 * r1) / (2 * (d * d)))"
    unfolding lensArea_def [abs_def] by (rule DERIV_add [OF s1 s2])
  moreover have "(- 2 * sqrt ?q) * (1 / 2 - (r1 * r1 - r2 * r2) / (2 * (d * d))) +
          (- 2 * sqrt ?q) * (1 / 2 - (r2 * r2 - r1 * r1) / (2 * (d * d))) = - 2 * sqrt ?q"
    by (simp add: algebra_simps diff_divide_distrib)
  moreover have "- 2 * sqrt ?q < 0" using q by simp
  ultimately show ?thesis by metis
qed

lemma chord_at_touch: "0 < r1 \<Longrightarrow> 0 < r2 \<Longrightarrow> chordOffset r1 r2 (r1 + r2) = r1"
proof -
  assume r: "0 < r1" "0 < r2"
  have "(r1 + r2) * (r1 + r2) - r2 * r2 + r1 * r1 = r1 * (2 * (r1 + r2))" by (simp add: algebra_simps)
  then show ?thesis using r by (simp add: chordOffset_def)
qed

lemma segment_full_offset: "0 < r \<Longrightarrow> segmentArea r r = 0"
  by (simp add: segmentArea_def)

lemma lens_at_touch: "0 < r1 \<Longrightarrow> 0 < r2 \<Longrightarrow> lensArea r1 r2 (r1 + r2) = 0"
  using chord_at_touch [of r1 r2] chord_at_touch [of r2 r1]
  by (simp add: lensArea_def segment_full_offset add.commute)

lemma chord_bounds_le:
  assumes r: "0 < r1" "0 < r2" and d: "\<bar>r1 - r2\<bar> < d" "d \<le> r1 + r2"
  shows "- r1 \<le> chordOffset r1 r2 d \<and> chordOffset r1 r2 d \<le> r1"
proof (cases "d = r1 + r2")
  case True
  then show ?thesis using r by (simp add: chord_at_touch)
next
  case False
  with d have "d < r1 + r2" by simp
  from chord_bounds [OF r d(1) this] show ?thesis by simp
qed

lemma lens_continuous:
  assumes r: "0 < r1" "0 < r2" and x: "\<bar>r1 - r2\<bar> < x" and y: "y \<le> r1 + r2"
  shows "continuous_on {x..y} (lensArea r1 r2)"
proof -
  have pos: "d \<noteq> 0" if "d \<in> {x..y}" for d using that x by auto
  have c1: "continuous_on {x..y} (chordOffset r1 r2)" for r1 r2
    unfolding chordOffset_def [abs_def] using pos by (intro continuous_intros) auto
  have b: "- 1 \<le> chordOffset r1 r2 d / r1 \<and> chordOffset r1 r2 d / r1 \<le> 1" if "d \<in> {x..y}" for d
  proof -
    from that x y have "\<bar>r1 - r2\<bar> < d" "d \<le> r1 + r2" by auto
    from chord_bounds_le [OF r this] r show ?thesis by (simp add: field_simps)
  qed
  have b': "- 1 \<le> chordOffset r2 r1 d / r2 \<and> chordOffset r2 r1 d / r2 \<le> 1" if "d \<in> {x..y}" for d
  proof -
    from that x y have "\<bar>r2 - r1\<bar> < d" "d \<le> r2 + r1" by auto
    from chord_bounds_le [OF r(2) r(1) this] r show ?thesis by (simp add: field_simps)
  qed
  show ?thesis
    unfolding lensArea_def [abs_def] segmentArea_def
    using b b' r by (intro continuous_intros c1 ballI) auto
qed

lemma lens_decreasing:
  assumes r: "0 < r1" "0 < r2" and x: "\<bar>r1 - r2\<bar> < x" and xy: "x < y" and y: "y \<le> r1 + r2"
  shows "lensArea r1 r2 y < lensArea r1 r2 x"
proof (rule DERIV_neg_imp_decreasing_open [OF xy])
  fix d assume "x < d" "d < y"
  with x y have "\<bar>r1 - r2\<bar> < d" "d < r1 + r2" by simp_all
  then show "\<exists>z. DERIV (lensArea r1 r2) d :> z \<and> z < 0" by (rule lens_deriv [OF r])
next
  show "continuous_on {x..y} (lensArea r1 r2)" using r x y by (rule lens_continuous)
qed

lemma circleOverlap_lens_le:
  assumes "0 < r1" "0 < r2" "\<bar>r1 - r2\<bar> < d" "d \<le> r1 + r2"
  shows "circleOverlap r1 r2 d = lensArea r1 r2 d"
proof (cases "d = r1 + r2")
  case True
  then show ?thesis using assms by (simp add: lens_at_touch circleOverlap_def)
next
  case False
  with assms show ?thesis by (simp add: circleOverlap_lens)
qed

lemma circleOverlap_decreasing:
  assumes r: "0 < r1" "0 < r2" and x: "\<bar>r1 - r2\<bar> < x" and xy: "x < y" and y: "y \<le> r1 + r2"
  shows "circleOverlap r1 r2 y < circleOverlap r1 r2 x"
proof -
  have "circleOverlap r1 r2 x = lensArea r1 r2 x" using r x xy y by (intro circleOverlap_lens_le) simp_all
  moreover have "circleOverlap r1 r2 y = lensArea r1 r2 y" using r x xy y by (intro circleOverlap_lens_le) simp_all
  ultimately show ?thesis using lens_decreasing [OF assms] by simp
qed

text \<open>The bisection stays within its tolerance of the only zero of a function that changes sign once.\<close>

lemma bisectLoop_near:
  assumes fA: "0 < fA"
    and sgn: "\<And>x. lo \<le> x \<Longrightarrow> x \<le> hi \<Longrightarrow> (0 \<le> f x \<longleftrightarrow> x \<le> d) \<and> (f x = 0 \<longleftrightarrow> x = d)"
    and inv: "lo \<le> a" "a + delta \<le> hi" "a \<le> d" "d \<le> a + delta"
  shows "\<bar>bisectLoop n f fA a delta - d\<bar> \<le> max SMALL (delta / 2 ^ n)"
  using inv
proof (induction n arbitrary: a delta)
  case 0
  then show ?case by simp
next
  case (Suc n)
  let ?delta = "delta / 2"
  let ?mid = "a + ?delta"
  have d0: "0 \<le> delta" using Suc.prems by simp
  have mid: "lo \<le> ?mid" "?mid \<le> hi" using Suc.prems d0 by simp_all
  have s: "(0 \<le> f ?mid \<longleftrightarrow> ?mid \<le> d) \<and> (f ?mid = 0 \<longleftrightarrow> ?mid = d)" using sgn [OF mid] .
  have prod: "f ?mid * fA \<ge> 0 \<longleftrightarrow> ?mid \<le> d"
    using fA s by (simp add: zero_le_mult_iff)
  have near: "\<bar>?mid - d\<bar> \<le> ?delta" using Suc.prems by (intro abs_leI) (simp_all add: field_simps)
  show ?case
  proof (cases "\<bar>?delta\<bar> < SMALL \<or> f ?mid = 0")
    case True
    then have r: "bisectLoop (Suc n) f fA a delta = ?mid" by (simp add: Let_def)
    from True have "\<bar>?mid - d\<bar> \<le> SMALL"
    proof
      assume "\<bar>?delta\<bar> < SMALL"
      with near show ?thesis by linarith
    next
      assume "f ?mid = 0"
      with s have "?mid = d" by simp
      then show ?thesis by (simp add: SMALL_def)
    qed
    then show ?thesis unfolding r by simp
  next
    case False
    let ?a = "if f ?mid * fA \<ge> 0 then ?mid else a"
    from False have r: "bisectLoop (Suc n) f fA a delta = bisectLoop n f fA ?a ?delta"
      by (simp add: Let_def)
    have "\<bar>bisectLoop n f fA ?a ?delta - d\<bar> \<le> max SMALL (?delta / 2 ^ n)"
    proof (rule Suc.IH)
      show "lo \<le> ?a" using Suc.prems mid by simp
      show "?a + ?delta \<le> hi" using Suc.prems d0 by simp
      show "?a \<le> d" using prod Suc.prems by simp
      show "d \<le> ?a + ?delta" using prod Suc.prems by (simp add: not_le)
    qed
    then show ?thesis unfolding r by simp
  qed
qed

lemma circleOverlap_inside:
  assumes "0 < r1" "0 < r2" "0 \<le> x" "x \<le> \<bar>r1 - r2\<bar>"
  shows "circleOverlap r1 r2 x = pi * min r1 r2 * min r1 r2"
proof -
  have "\<bar>r1 - r2\<bar> < r1 + r2" using assms by (simp add: abs_less_iff)
  with assms show ?thesis by (simp add: circleOverlap_def)
qed

lemma circleOverlap_touch: "circleOverlap r1 r2 (r1 + r2) = 0"
  by (simp add: circleOverlap_def)

lemma round_trip_signs:
  assumes r: "0 < r1" "0 < r2" and d: "\<bar>r1 - r2\<bar> \<le> d" "d \<le> r1 + r2"
    and reg: "circleOverlap r1 r2 d + SMALL < min r1 r2 * min r1 r2 * pi"
  shows "\<bar>r1 - r2\<bar> < d"
    and "\<And>x. 0 \<le> x \<Longrightarrow> x \<le> r1 + r2 \<Longrightarrow>
           (0 \<le> circleOverlap r1 r2 x - circleOverlap r1 r2 d \<longleftrightarrow> x \<le> d) \<and>
           (circleOverlap r1 r2 x - circleOverlap r1 r2 d = 0 \<longleftrightarrow> x = d)"
proof -
  have sm: "0 < SMALL" by (simp add: SMALL_def)
  have full: "circleOverlap r1 r2 d < pi * min r1 r2 * min r1 r2"
    using reg sm by (simp add: mult.commute mult.left_commute)
  show dl: "\<bar>r1 - r2\<bar> < d"
  proof (rule ccontr)
    assume "\<not> \<bar>r1 - r2\<bar> < d"
    with d have "d \<le> \<bar>r1 - r2\<bar>" "0 \<le> d" by simp_all
    with r have "circleOverlap r1 r2 d = pi * min r1 r2 * min r1 r2" by (intro circleOverlap_inside) simp_all
    with full show False by simp
  qed
  fix x :: real assume x: "0 \<le> x" "x \<le> r1 + r2"
  consider "x \<le> \<bar>r1 - r2\<bar>" | "\<bar>r1 - r2\<bar> < x" "x < d" | "x = d" | "d < x" by linarith
  then show "(0 \<le> circleOverlap r1 r2 x - circleOverlap r1 r2 d \<longleftrightarrow> x \<le> d) \<and>
           (circleOverlap r1 r2 x - circleOverlap r1 r2 d = 0 \<longleftrightarrow> x = d)"
  proof cases
    case 1
    with r x have "circleOverlap r1 r2 x = pi * min r1 r2 * min r1 r2" by (intro circleOverlap_inside)
    with full 1 dl show ?thesis by simp
  next
    case 2
    from circleOverlap_decreasing [OF r 2 d(2)] 2 show ?thesis by simp
  next
    case 3
    then show ?thesis by simp
  next
    case 4
    from circleOverlap_decreasing [OF r dl 4 x(2)] 4 show ?thesis by simp
  qed
qed

lemma round_trip:
  assumes r: "0 < r1" "0 < r2" and d: "\<bar>r1 - r2\<bar> \<le> d" "d \<le> r1 + r2"
    and reg: "circleOverlap r1 r2 d + SMALL < min r1 r2 * min r1 r2 * pi"
  shows "\<exists>x. distanceFromIntersectArea r1 r2 (circleOverlap r1 r2 d) = Inr x \<and>
             \<bar>x - d\<bar> \<le> max SMALL ((r1 + r2) / 2 ^ 100)"
proof -
  let ?ov = "circleOverlap r1 r2 d"
  let ?f = "\<lambda>distance. circleOverlap r1 r2 distance - ?ov"
  note sg = round_trip_signs [OF assms]
  have d0: "0 \<le> d" using d by linarith
  have u: "0 \<le> r1 + r2" using r by simp
  have dpos: "0 < d" using sg(1) abs_ge_zero [of "r1 - r2"] by linarith
  have "0 \<le> ?f 0 \<and> ?f 0 \<noteq> 0" using sg(2) [of 0] dpos u by simp
  then have fA: "0 < ?f 0" by linarith
  have fB: "?f (r1 + r2) \<le> 0"
  proof (cases "d = r1 + r2")
    case True
    then show ?thesis by simp
  next
    case False
    with d have "\<not> r1 + r2 \<le> d" by simp
    with sg(2) [of "r1 + r2"] u show ?thesis by simp
  qed
  have nb: "\<not> ?f 0 * ?f (r1 + r2) > 0" using fA fB by (simp add: zero_less_mult_iff)
  have e: "distanceFromIntersectArea r1 r2 ?ov =
           (if ?f 0 * ?f (r1 + r2) > 0 then Inl BisectSigns
            else if ?f 0 = 0 then Inr 0
            else if ?f (r1 + r2) = 0 then Inr (r1 + r2)
            else Inr (bisectLoop 100 ?f (?f 0) 0 (r1 + r2)))"
    using reg by (simp add: distanceFromIntersectArea_def bisect_def Let_def)
  show ?thesis
  proof (cases "?f (r1 + r2) = 0")
    case True
    then have "r1 + r2 = d" using sg(2) [of "r1 + r2"] u by simp
    moreover have "distanceFromIntersectArea r1 r2 ?ov = Inr (r1 + r2)"
      unfolding e using nb fA True by simp
    ultimately show ?thesis by (simp add: SMALL_def)
  next
    case False
    have "distanceFromIntersectArea r1 r2 ?ov = Inr (bisectLoop 100 ?f (?f 0) 0 (r1 + r2))"
      unfolding e using nb fA False by simp
    moreover have "\<bar>bisectLoop 100 ?f (?f 0) 0 (r1 + r2) - d\<bar> \<le> max SMALL ((r1 + r2) / 2 ^ 100)"
      by (rule bisectLoop_near [where lo = 0 and hi = "r1 + r2", OF fA sg(2)]) (use d0 d in simp_all)
    ultimately show ?thesis by blast
  qed
qed

text \<open>
  C4 (amended). For radii \<open>r1, r2 > 0\<close> and a distance \<open>d\<close> between \<open>|r1 - r2|\<close> and \<open>r1 + r2\<close>
  at which the overlap is below the area of the smaller circle by more than the tolerance
  \<open>1e-10\<close>, \<^verbatim>\<open>distanceFromIntersectArea(r1, r2, circleOverlap(r1, r2, d))\<close>
  returns a distance within the bisection tolerance of \<open>d\<close>: within \<open>1e-10\<close>, or within the
  width \<open>(r1 + r2) / 2^100\<close> of the last interval where that is larger. Whenever the requested
  overlap meets or exceeds \<open>pi * min(r1, r2)^2\<close> within the tolerance \<open>1e-10\<close>, the function
  returns exactly \<open>|r1 - r2|\<close>.
\<close>

theorem distanceFromIntersectArea_round_trip:
  "(0 < r1 \<and> 0 < r2 \<and> \<bar>r1 - r2\<bar> \<le> d \<and> d \<le> r1 + r2 \<and>
    circleOverlap r1 r2 d + 1 / 10 ^ 10 < min r1 r2 * min r1 r2 * pi \<longrightarrow>
      (\<exists>x. distanceFromIntersectArea r1 r2 (circleOverlap r1 r2 d) = Inr x \<and>
           \<bar>x - d\<bar> \<le> max (1 / 10 ^ 10) ((r1 + r2) / 2 ^ 100))) \<and>
   (min r1 r2 * min r1 r2 * pi \<le> overlap + 1 / 10 ^ 10 \<longrightarrow>
      distanceFromIntersectArea r1 r2 overlap = Inr \<bar>r1 - r2\<bar>)"
proof (intro conjI impI)
  assume a: "0 < r1 \<and> 0 < r2 \<and> \<bar>r1 - r2\<bar> \<le> d \<and> d \<le> r1 + r2 \<and>
    circleOverlap r1 r2 d + 1 / 10 ^ 10 < min r1 r2 * min r1 r2 * pi"
  then have "circleOverlap r1 r2 d + SMALL < min r1 r2 * min r1 r2 * pi" by (simp add: SMALL_def)
  with a have "\<exists>x. distanceFromIntersectArea r1 r2 (circleOverlap r1 r2 d) = Inr x \<and>
             \<bar>x - d\<bar> \<le> max SMALL ((r1 + r2) / 2 ^ 100)"
    by (intro round_trip) simp_all
  then show "\<exists>x. distanceFromIntersectArea r1 r2 (circleOverlap r1 r2 d) = Inr x \<and>
           \<bar>x - d\<bar> \<le> max (1 / 10 ^ 10) ((r1 + r2) / 2 ^ 100)"
    by (simp only: SMALL_def)
next
  assume "min r1 r2 * min r1 r2 * pi \<le> overlap + 1 / 10 ^ 10"
  then show "distanceFromIntersectArea r1 r2 overlap = Inr \<bar>r1 - r2\<bar>"
    by (simp add: distanceFromIntersectArea_def SMALL_def)
qed

lemma unit_overlap: "circleOverlap 1 1 1 = 2 * arccos (1 / 2) - sqrt (3 / 4)"
  by (simp add: circleOverlap_def circleArea_def Let_def)

lemma unit_overlap_regime: "circleOverlap 1 1 1 + 1 / 10 ^ 10 < min 1 1 * min 1 1 * pi"
proof -
  define eps :: real where "eps = 1 / 10 ^ 10"
  define a where "a = arccos (1 / 2)"
  define s :: real where "s = sqrt (3 / 4)"
  have "a \<le> pi / 2" unfolding a_def by (rule arccos_le_pi2) simp_all
  moreover have "1 / 2 \<le> s" unfolding s_def by (rule real_le_rsqrt) (simp add: power2_eq_square)
  moreover have "eps < 1 / 2" by (simp add: eps_def)
  ultimately have "2 * a - s + eps < pi" by linarith
  then have "circleOverlap 1 1 1 + 1 / 10 ^ 10 < pi"
    unfolding unit_overlap a_def s_def eps_def .
  then show ?thesis by simp
qed

theorem distanceFromIntersectArea_round_trip_witness:
  "(0 :: real) < 1 \<and> \<bar>1 - 1\<bar> \<le> (1 :: real) \<and> (1 :: real) \<le> 1 + 1 \<and>
   circleOverlap 1 1 1 + 1 / 10 ^ 10 < min 1 1 * min 1 1 * pi \<and>
   (\<exists>x. distanceFromIntersectArea 1 1 (circleOverlap 1 1 1) = Inr x \<and> \<bar>x - 1\<bar> \<le> 1 / 10 ^ 10) \<and>
   min 3 2 * min 3 2 * pi \<le> 16 + 1 / 10 ^ 10 \<and>
   distanceFromIntersectArea 3 2 16 = Inr 1"
proof -
  have p: "min 3 2 * min 3 2 * pi \<le> 16 + 1 / 10 ^ 10" using pi_less_4 by simp
  note t1 = distanceFromIntersectArea_round_trip [of 1 1 1, THEN conjunct1, rule_format]
  note t2 = distanceFromIntersectArea_round_trip [of 3 2 _ 16, THEN conjunct2, rule_format, OF p]
  have "\<exists>x. distanceFromIntersectArea 1 1 (circleOverlap 1 1 1) = Inr x \<and>
           \<bar>x - 1\<bar> \<le> max (1 / 10 ^ 10) ((1 + 1) / 2 ^ 100)"
    by (rule t1) (intro conjI unit_overlap_regime; simp)
  moreover have "max (1 / 10 ^ 10) ((1 + 1) / 2 ^ 100) = (1 / 10 ^ 10 :: real)" by simp
  ultimately have r: "\<exists>x. distanceFromIntersectArea 1 1 (circleOverlap 1 1 1) = Inr x \<and> \<bar>x - 1\<bar> \<le> 1 / 10 ^ 10"
    by (simp only:)
  from t2 have r2: "distanceFromIntersectArea 3 2 16 = Inr 1" by simp
  from r r2 p unit_overlap_regime show ?thesis by (intro conjI; simp)
qed

text \<open>
  The overlap of two equal circles whose centres are one radius apart, which is strictly
  between 0 and the area of a circle.
\<close>

lemma equal_discs_overlap:
  assumes "0 < r"
  shows "circleOverlap r r r = r * r * (2 * arccos (1 / 2) - sqrt (3 / 4))"
proof -
  have w: "r - (r * r - r * r + r * r) / (2 * r) = r / 2" using assms by (simp add: field_simps)
  have s: "sqrt (r / 2 * (2 * r - r / 2)) = r * sqrt (3 / 4)"
  proof -
    have "r / 2 * (2 * r - r / 2) = r\<^sup>2 * (3 / 4)" by (simp add: power2_eq_square field_simps)
    then have "sqrt (r / 2 * (2 * r - r / 2)) = sqrt (r\<^sup>2) * sqrt (3 / 4)"
      by (simp only: real_sqrt_mult)
    then show ?thesis using assms by (simp only: real_sqrt_abs abs_of_pos)
  qed
  have a: "1 - r / 2 / r = 1 / 2" using assms by simp
  have "circleArea r (r / 2) = r * r * arccos (1 / 2) - r / 2 * (r * sqrt (3 / 4))"
    unfolding circleArea_def s a by simp
  moreover have "circleOverlap r r r = circleArea r (r / 2) + circleArea r (r / 2)"
    using assms unfolding circleOverlap_def Let_def w by simp
  ultimately show ?thesis by (simp add: algebra_simps)
qed

lemma equal_discs_overlap_bounds:
  assumes "0 < r"
  shows "circleOverlap r r r < pi * min r r * min r r" and "- (r * r) \<le> circleOverlap r r r"
proof -
  define a where "a = arccos (1 / 2)"
  define s :: real where "s = sqrt (3 / 4)"
  have a1: "a \<le> pi / 2" unfolding a_def by (rule arccos_le_pi2) simp_all
  have a0: "0 \<le> a" unfolding a_def by (rule arccos_lbound) simp_all
  have s0: "0 < s" unfolding s_def by simp
  have s1: "s \<le> 1" unfolding s_def by (rule real_le_lsqrt) simp_all
  have rr: "0 < r * r" using assms by simp
  have e: "circleOverlap r r r = r * r * (2 * a - s)"
    unfolding a_def s_def by (rule equal_discs_overlap [OF assms])
  have "2 * a - s < pi" using a1 s0 by linarith
  then have "r * r * (2 * a - s) < r * r * pi" using rr by (rule mult_strict_left_mono)
  then show "circleOverlap r r r < pi * min r r * min r r" unfolding e by (simp add: mult_ac)
  have "- 1 \<le> 2 * a - s" using a0 s1 by linarith
  then have "r * r * (- 1) \<le> r * r * (2 * a - s)" using rr by (intro mult_left_mono) simp_all
  then show "- (r * r) \<le> circleOverlap r r r" unfolding e by simp
qed

text \<open>
  The claim as stated fails where the overlap is below the area of the smaller circle by less
  than the tolerance: for \<open>r1 = r2 = d = 1e-6\<close> the overlap is strictly less than the area of
  a circle, which is itself below \<open>1e-10\<close>, so the shortcut returns \<open>|r1 - r2| = 0\<close>, which is
  \<open>1e-6\<close> away from \<open>d\<close>.
\<close>

theorem distanceFromIntersectArea_small_circles_counterexample:
  "(0 :: real) < 1 / 10 ^ 6 \<and>
   \<bar>1 / 10 ^ 6 - 1 / 10 ^ 6\<bar> \<le> (1 / 10 ^ 6 :: real) \<and> (1 / 10 ^ 6 :: real) \<le> 1 / 10 ^ 6 + 1 / 10 ^ 6 \<and>
   circleOverlap (1 / 10 ^ 6) (1 / 10 ^ 6) (1 / 10 ^ 6) <
     pi * min (1 / 10 ^ 6) (1 / 10 ^ 6) * min (1 / 10 ^ 6) (1 / 10 ^ 6) \<and>
   distanceFromIntersectArea (1 / 10 ^ 6) (1 / 10 ^ 6)
     (circleOverlap (1 / 10 ^ 6) (1 / 10 ^ 6) (1 / 10 ^ 6)) = Inr 0 \<and>
   max (1 / 10 ^ 10) ((1 / 10 ^ 6 + 1 / 10 ^ 6) / 2 ^ 100) < \<bar>0 - 1 / 10 ^ 6 :: real\<bar>"
proof -
  have r: "(0 :: real) < 1 / 10 ^ 6" by simp
  note b = equal_discs_overlap_bounds [OF r]
  have "pi * (1 / 10 ^ 6 * (1 / 10 ^ 6)) \<le> 4 * (1 / 10 ^ 6 * (1 / 10 ^ 6))"
    using pi_less_4 by simp
  with b(2) have "min (1 / 10 ^ 6) (1 / 10 ^ 6) * min (1 / 10 ^ 6) (1 / 10 ^ 6) * pi \<le>
        circleOverlap (1 / 10 ^ 6) (1 / 10 ^ 6) (1 / 10 ^ 6) + SMALL"
    by (simp add: SMALL_def)
  then have d: "distanceFromIntersectArea (1 / 10 ^ 6) (1 / 10 ^ 6)
     (circleOverlap (1 / 10 ^ 6) (1 / 10 ^ 6) (1 / 10 ^ 6)) = Inr 0"
    unfolding distanceFromIntersectArea_def by simp
  have m: "max (1 / 10 ^ 10) ((1 / 10 ^ 6 + 1 / 10 ^ 6) / 2 ^ 100) < \<bar>0 - 1 / 10 ^ 6 :: real\<bar>"
    by simp
  from b(1) d m show ?thesis by (intro conjI) simp_all
qed

section \<open>greedyLayout on completed input\<close>

lemma completion_of_zero_size_input: "addMissingAreas codeUnitCompare [singleArea ''A'' 1, singleArea ''B'' 0] =
    [singleArea ''A'' 1, singleArea ''B'' 0, zeroArea ''A'' ''B'']"
  by (simp add: addMissingAreas_def missingAreas_def singleIds_def pairKeys_def sortBy_def
      singleArea_def pairKey_def)

text \<open>
  C5. The claim says that \<^verbatim>\<open>greedyLayout\<close> never throws on an Area list that has passed
  \<^verbatim>\<open>addMissingAreas\<close>. For the sets \<open>A\<close> of size 1 and \<open>B\<close> of size 0 the completed list
  holds the two-set Area of \<open>A\<close> and \<open>B\<close>, but the overlap loop skips it because \<open>B\<close> has
  size 0, so \<open>B\<close> has no positioned neighbour at its placement step and the code throws
  \<^verbatim>\<open>"ERROR: missing pairwise overlap information"\<close>.
\<close>

theorem greedyLayout_zero_size_throws:
  "greedyLayout ia cci (addMissingAreas codeUnitCompare [singleArea ''A'' 1, singleArea ''B'' 0]) =
     Inl MissingPairwiseOverlap"
proof -
  let ?areas = "[singleArea ''A'' 1, singleArea ''B'' 0, zeroArea ''A'' ''B'']"
  let ?cA = "\<lparr>circle_x = 10 ^ 10, circle_y = 10 ^ 10, circle_rowid = Some 0,
              circle_size = Some 1, circle_radius = sqrt (1 / pi),
              circle_parent = None, circle_setid = ''A''\<rparr>"
  let ?cB = "\<lparr>circle_x = 10 ^ 10, circle_y = 10 ^ 10, circle_rowid = Some 1,
              circle_size = Some 0, circle_radius = sqrt (0 / pi),
              circle_parent = None, circle_setid = ''B''\<rparr>"
  have i: "fold initStep ?areas ([], []) = ([(''A'', ?cA), (''B'', ?cB)], [(''A'', []), (''B'', [])])"
    by (simp add: initStep_def singleArea_def zeroArea_def)
  have f: "filter (\<lambda>a. length (area_sets a) = 2) ?areas = [zeroArea ''A'' ''B'']"
    by (simp add: singleArea_def zeroArea_def)
  have o: "fold (overlapStep [(''A'', ?cA), (''B'', ?cB)]) [zeroArea ''A'' ''B'']
             ([(''A'', []), (''B'', [])], None) = ([(''A'', []), (''B'', [])], None)"
    by (simp add: overlapStep_def zeroArea_def recGet_def noSize_def Let_def)
  have m: "mostOverlappedOf [(''A'', []), (''B'', [])] = [(''A'', 0), (''B'', 0)]"
    by (simp add: mostOverlappedOf_def objectEntries_plain sortBy_def)
  have p: "snd (placeStep ia cci [zeroArea ''A'' ''B''] [(''A'', []), (''B'', [])] ''B'' (st, None)) =
           Some MissingPairwiseOverlap" for st
    by (simp add: placeStep_def recGet_def sortBy_def Let_def)
  show ?thesis
    unfolding completion_of_zero_size_input greedyLayout_def Let_def i f fst_conv snd_conv o m
    by (simp add: p)
qed

text \<open>
  Where the branch is unreachable: when every single-set Area has a size other than 0 and an
  id other than the empty string, and no id of a one-set or two-set Area contains a comma,
  \<^verbatim>\<open>greedyLayout\<close> on the completed list never throws the missing-overlap error. Every
  set then has the first positioned set among its neighbours.
\<close>

lemma keys_recSet: "map fst (recSet r k v) = (if k \<in> fst ` set r then map fst r else map fst r @ [k])"
  by (induction r) (auto split: if_splits)

lemma set_keys_recSet: "fst ` set (recSet r k v) = insert k (fst ` set r)"
proof -
  have "set (map fst (recSet r k v)) = insert k (set (map fst r))"
    unfolding keys_recSet by auto
  then show ?thesis by simp
qed

lemma distinct_keys_recSet: "distinct (map fst r) \<Longrightarrow> distinct (map fst (recSet r k v))"
  unfolding keys_recSet by auto

lemma recGet_Some_iff: "distinct (map fst r) \<Longrightarrow> recGet r k = Some v \<longleftrightarrow> (k, v) \<in> set r"
  by (simp add: recGet_def)

lemma recGet_None_iff: "recGet r k = None \<longleftrightarrow> k \<notin> fst ` set r"
  by (simp add: recGet_def map_of_eq_None_iff)

lemma initStep_keys:
  "fst ` set (fst (initStep ar st)) = fst ` set (fst st) \<union> set (singleOf ar) \<and>
   fst ` set (snd (initStep ar st)) = fst ` set (snd st) \<union> set (singleOf ar)"
  by (auto simp: initStep_def singleOf_def set_keys_recSet split: list.splits)

lemma fold_initStep_keys:
  "fst ` set (fst (fold initStep areas st)) = fst ` set (fst st) \<union> set (concat (map singleOf areas)) \<and>
   fst ` set (snd (fold initStep areas st)) = fst ` set (snd st) \<union> set (concat (map singleOf areas))"
proof (induction areas arbitrary: st)
  case Nil
  then show ?case by simp
next
  case (Cons ar areas)
  show ?case using Cons.IH [of "initStep ar st"] initStep_keys [of ar st] by auto
qed

lemma initStep_sized:
  assumes "sizedCircles (fst st)" and "length (area_sets ar) = 1 \<longrightarrow> area_size ar \<noteq> 0"
  shows "sizedCircles (fst (initStep ar st))"
proof (cases "\<exists>k. area_sets ar = [k]")
  case False
  then have "initStep ar st = st" by (auto simp: initStep_def split: list.splits)
  with assms show ?thesis by simp
next
  case True
  then obtain k where k: "area_sets ar = [k]" by blast
  let ?c = "\<lparr>circle_x = 10 ^ 10, circle_y = 10 ^ 10, circle_rowid = Some (length (fst st)),
              circle_size = Some (area_size ar), circle_radius = sqrt (area_size ar / pi),
              circle_parent = None, circle_setid = k\<rparr>"
  have e: "fst (initStep ar st) = recSet (fst st) k ?c" using k by (simp add: initStep_def)
  have "\<not> noSize ?c" using assms(2) k by (simp add: noSize_def)
  then show ?thesis
    unfolding e sizedCircles_def using assms(1) set_recSet [of "fst st" k ?c]
    by (auto simp: sizedCircles_def)
qed

lemma initStep_distinct:
  assumes "distinct (map fst (fst st))" "distinct (map fst (snd st))"
  shows "distinct (map fst (fst (initStep ar st))) \<and> distinct (map fst (snd (initStep ar st)))"
  using assms by (auto simp: initStep_def distinct_keys_recSet split: list.splits)

lemma fold_initStep_inv:
  assumes "\<forall>ar\<in>set areas. length (area_sets ar) = 1 \<longrightarrow> area_size ar \<noteq> 0"
  shows "sizedCircles (fst (fold initStep areas ([], []))) \<and>
         distinct (map fst (fst (fold initStep areas ([], [])))) \<and>
         distinct (map fst (snd (fold initStep areas ([], []))))"
proof (rule fold_invariant [where I = "\<lambda>st. sizedCircles (fst st) \<and> distinct (map fst (fst st)) \<and> distinct (map fst (snd st))"])
  fix ar and st :: "circleRecord \<times> overLap list jsobject"
  assume "ar \<in> set areas"
    and "sizedCircles (fst st) \<and> distinct (map fst (fst st)) \<and> distinct (map fst (snd st))"
  then show "sizedCircles (fst (initStep ar st)) \<and> distinct (map fst (fst (initStep ar st))) \<and>
             distinct (map fst (snd (initStep ar st)))"
    using assms initStep_sized [of st ar] initStep_distinct [of st ar] by blast
next
  show "sizedCircles (fst ([], [] :: overLap list jsobject)) \<and>
        distinct (map fst (fst ([] :: circleRecord, [] :: overLap list jsobject))) \<and>
        distinct (map fst (snd ([] :: circleRecord, [] :: overLap list jsobject)))"
    by (simp add: sizedCircles_def)
qed

lemma pushOverlap_keys: "map fst (pushOverlap so k v) = map fst so"
proof (cases "recGet so k")
  case None
  then show ?thesis by (simp add: pushOverlap_def)
next
  case (Some l)
  then have "k \<in> fst ` set so" using recGet_None_iff [of so k] by auto
  with Some show ?thesis by (simp add: pushOverlap_def keys_recSet)
qed

lemma pushOverlap_mono:
  assumes "hasNeighbour so k n"
  shows "hasNeighbour (pushOverlap so k' v) k n"
proof (cases "recGet so k'")
  case None
  with assms show ?thesis by (simp add: pushOverlap_def)
next
  case (Some l)
  from assms obtain l0 e where l0: "recGet so k = Some l0" "e \<in> set l0" "ov_set e = n"
    by (auto simp: hasNeighbour_def)
  show ?thesis
  proof (cases "k = k'")
    case True
    with l0 Some have "recGet (pushOverlap so k' v) k = Some (l0 @ [v])"
      by (simp add: pushOverlap_def recGet_recSet)
    with l0 show ?thesis by (auto simp: hasNeighbour_def)
  next
    case False
    with l0 Some have "recGet (pushOverlap so k' v) k = Some l0"
      by (simp add: pushOverlap_def recGet_recSet)
    with l0 show ?thesis by (auto simp: hasNeighbour_def)
  qed
qed

lemma pushOverlap_new:
  assumes "k \<in> fst ` set so"
  shows "hasNeighbour (pushOverlap so k v) k (ov_set v)"
proof -
  from assms obtain l where l: "recGet so k = Some l"
    using recGet_None_iff [of so k] by (cases "recGet so k") auto
  then have "recGet (pushOverlap so k v) k = Some (l @ [v])"
    by (simp add: pushOverlap_def recGet_recSet)
  then show ?thesis by (auto simp: hasNeighbour_def)
qed

lemma overlapStep_keys: "map fst (fst (overlapStep circles current st)) = map fst (fst st)"
  by (simp add: overlapStep_def Let_def pushOverlap_keys split: option.splits)

lemma overlapStep_error:
  "snd st \<noteq> Some MissingPairwiseOverlap \<Longrightarrow>
   snd (overlapStep circles current st) \<noteq> Some MissingPairwiseOverlap"
  by (auto simp: overlapStep_def Let_def split: option.splits)

lemma overlapStep_error_kept: "snd (overlapStep circles current st) = None \<Longrightarrow> snd st = None"
  by (simp add: overlapStep_def Let_def split: option.splits if_splits)

lemma overlapStep_mono:
  assumes "hasNeighbour (fst st) k n"
  shows "hasNeighbour (fst (overlapStep circles current st)) k n"
  using assms by (simp add: overlapStep_def Let_def pushOverlap_mono split: option.splits)

lemma overlapStep_adds:
  assumes ok: "snd (overlapStep circles current st) = None"
    and sized: "sizedCircles circles"
    and keys: "fst ` set (fst st) = fst ` set circles"
    and ab: "area_sets current = [a, b]"
  shows "hasNeighbour (fst (overlapStep circles current st)) a b \<and>
         hasNeighbour (fst (overlapStep circles current st)) b a"
proof -
  have n: "snd st = None" using ok by (rule overlapStep_error_kept)
  from ok n ab obtain lc where lc: "recGet circles a = Some lc"
    by (auto simp: overlapStep_def Let_def split: option.splits)
  then have "(a, lc) \<in> set circles" by (rule recGet_mem)
  with sized have slc: "\<not> noSize lc" by (auto simp: sizedCircles_def)
  from ok n ab lc slc obtain rc where rc: "recGet circles b = Some rc"
    by (auto simp: overlapStep_def Let_def split: option.splits)
  then have "(b, rc) \<in> set circles" by (rule recGet_mem)
  with sized have src: "\<not> noSize rc" by (auto simp: sizedCircles_def)
  define w where "w = (if area_size current + SMALL \<ge> min (the (circle_size lc)) (the (circle_size rc))
                        then 0 else areaWeight current)"
  let ?v1 = "\<lparr>ov_set = b, ov_size = area_size current, ov_weight = w\<rparr>"
  let ?v2 = "\<lparr>ov_set = a, ov_size = area_size current, ov_weight = w\<rparr>"
  let ?so1 = "pushOverlap (fst st) a ?v1"
  have e: "fst (overlapStep circles current st) = pushOverlap ?so1 b ?v2"
    using n ab lc rc slc src by (simp add: overlapStep_def Let_def w_def)
  have ka: "a \<in> fst ` set (fst st)" using keys \<open>(a, lc) \<in> set circles\<close> by force
  have kb: "b \<in> fst ` set ?so1"
  proof -
    have "b \<in> fst ` set (fst st)" using keys \<open>(b, rc) \<in> set circles\<close> by force
    moreover have "set (map fst ?so1) = set (map fst (fst st))" by (simp only: pushOverlap_keys)
    ultimately show ?thesis by simp
  qed
  have "hasNeighbour ?so1 a b" using pushOverlap_new [OF ka, of ?v1] by simp
  then have "hasNeighbour (pushOverlap ?so1 b ?v2) a b" by (rule pushOverlap_mono)
  moreover have "hasNeighbour (pushOverlap ?so1 b ?v2) b a" using pushOverlap_new [OF kb, of ?v2] by simp
  ultimately show ?thesis unfolding e by simp
qed

lemma fold_overlapStep:
  assumes sized: "sizedCircles circles"
    and keys: "fst ` set (fst st) = fst ` set circles"
  shows "map fst (fst (fold (overlapStep circles) areas st)) = map fst (fst st) \<and>
         (snd st \<noteq> Some MissingPairwiseOverlap \<longrightarrow>
            snd (fold (overlapStep circles) areas st) \<noteq> Some MissingPairwiseOverlap) \<and>
         (\<forall>k n. hasNeighbour (fst st) k n \<longrightarrow> hasNeighbour (fst (fold (overlapStep circles) areas st)) k n) \<and>
         (snd (fold (overlapStep circles) areas st) = None \<longrightarrow>
            (\<forall>ar\<in>set areas. \<forall>a b. area_sets ar = [a, b] \<longrightarrow>
               hasNeighbour (fst (fold (overlapStep circles) areas st)) a b \<and>
               hasNeighbour (fst (fold (overlapStep circles) areas st)) b a))"
  using keys
proof (induction areas arbitrary: st)
  case Nil
  then show ?case by simp
next
  case (Cons ar areas)
  let ?st1 = "overlapStep circles ar st"
  let ?r = "fold (overlapStep circles) areas ?st1"
  have k1: "map fst (fst ?st1) = map fst (fst st)" by (rule overlapStep_keys)
  then have "set (map fst (fst ?st1)) = set (map fst (fst st))" by simp
  then have keys1: "fst ` set (fst ?st1) = fst ` set circles" using Cons.prems by simp
  note ih = Cons.IH [OF keys1]
  have r: "fold (overlapStep circles) (ar # areas) st = ?r" by simp
  have c1: "map fst (fst ?r) = map fst (fst st)" using ih k1 by simp
  have c2: "snd st \<noteq> Some MissingPairwiseOverlap \<longrightarrow> snd ?r \<noteq> Some MissingPairwiseOverlap"
    using ih overlapStep_error [of st circles ar] by blast
  have c3: "\<forall>k n. hasNeighbour (fst st) k n \<longrightarrow> hasNeighbour (fst ?r) k n"
    using ih overlapStep_mono [of st _ _ circles ar] by blast
  have c4: "snd ?r = None \<longrightarrow>
            (\<forall>x\<in>set (ar # areas). \<forall>a b. area_sets x = [a, b] \<longrightarrow>
               hasNeighbour (fst ?r) a b \<and> hasNeighbour (fst ?r) b a)"
  proof (intro impI ballI allI)
    fix x a b
    assume ok: "snd ?r = None" and x: "x \<in> set (ar # areas)" and ab: "area_sets x = [a, b]"
    show "hasNeighbour (fst ?r) a b \<and> hasNeighbour (fst ?r) b a"
    proof (cases "x \<in> set areas")
      case True
      with ih ok ab show ?thesis by blast
    next
      case False
      with x have xa: "x = ar" by simp
      have ok1: "snd ?st1 = None"
      proof (rule ccontr)
        assume "snd ?st1 \<noteq> None"
        then obtain e where e: "snd ?st1 = Some e" by auto
        have "snd (fold (overlapStep circles) as s) = Some e" if "snd s = Some e" for as s
          using that by (induction as arbitrary: s) (simp_all add: overlapStep_def)
        from this [OF e] ok show False by simp
      qed
      from overlapStep_adds [OF ok1 sized Cons.prems ab [unfolded xa]]
      have "hasNeighbour (fst ?st1) a b \<and> hasNeighbour (fst ?st1) b a" .
      with ih show ?thesis by blast
    qed
  qed
  show ?case unfolding r using c1 c2 c3 c4 by blast
qed

lemma keys_insertBy: "set (map g (insertBy cmp x ys)) = insert (g x) (set (map g ys))"
  by (induction ys) auto

lemma distinct_keys_insertBy:
  "distinct (map g (insertBy cmp x ys)) = (g x \<notin> g ` set ys \<and> distinct (map g ys))"
  by (induction ys) (auto simp: set_insertBy)

lemma distinct_keys_sortBy: "distinct (map g (sortBy cmp xs)) = distinct (map g xs)"
proof (induction xs)
  case Nil
  then show ?case by (simp add: sortBy_def)
next
  case (Cons x xs)
  have "sortBy cmp (x # xs) = insertBy cmp x (sortBy cmp xs)" by (simp add: sortBy_def)
  then show ?case using Cons by (simp add: distinct_keys_insertBy set_sortBy)
qed

lemma mostOverlapped_keys:
  "set (map fst (mostOverlappedOf so)) = fst ` set so"
  by (force simp: mostOverlappedOf_def set_sortBy set_objectEntries)

lemma mostOverlapped_distinct:
  assumes "distinct (map fst so)"
  shows "distinct (map fst (mostOverlappedOf so))"
proof -
  have "map fst (map (\<lambda>e. (fst e, fold (\<lambda>overlap size. size + ov_size overlap * ov_weight overlap) (snd e) 0))
          (objectEntries so)) = map fst (objectEntries so)"
    by (simp add: comp_def)
  then show ?thesis
    unfolding mostOverlappedOf_def distinct_keys_sortBy
    using distinct_objectEntries [OF assms] by (simp add: comp_def)
qed

lemma distanceFromIntersectArea_not_missing:
  "distanceFromIntersectArea r1 r2 ov \<noteq> Inl MissingPairwiseOverlap"
  by (simp add: distanceFromIntersectArea_def bisect_def Let_def)

lemma extraPoints_not_missing:
  "extraPoints cci circles this p1 d1 os \<noteq> Inl MissingPairwiseOverlap"
  using distanceFromIntersectArea_not_missing
  by (induction os) (auto split: option.splits sum.splits)

lemma candidatePoints_not_missing:
  "candidatePoints cci circles this os \<noteq> Inl MissingPairwiseOverlap"
  using distanceFromIntersectArea_not_missing extraPoints_not_missing
  by (induction os) (auto split: option.splits sum.splits)

lemma sortBy_Nil_iff: "sortBy cmp xs = [] \<longleftrightarrow> xs = []"
  using set_sortBy [of cmp xs] by (metis set_empty)

lemma positionSet_positioned: "snd (positionSet st point index) = insert index (snd st)"
  by (simp add: positionSet_def)

lemma tryPoint_not_missing:
  "st \<noteq> Inl MissingPairwiseOverlap \<Longrightarrow>
   tryPoint ia areas circles k this p st \<noteq> Inl MissingPairwiseOverlap"
  by (auto simp: tryPoint_def dest: lossFunction_error split: sum.splits)

lemma fold_tryPoint_not_missing:
  "st \<noteq> Inl MissingPairwiseOverlap \<Longrightarrow>
   fold (tryPoint ia areas circles k this) pts st \<noteq> Inl MissingPairwiseOverlap"
  by (induction pts arbitrary: st) (simp_all add: tryPoint_not_missing)

lemma placeStep_safe:
  assumes err: "snd st \<noteq> Some MissingPairwiseOverlap"
    and ne: "setIndex \<noteq> []"
    and nb: "hasNeighbour setOverlaps setIndex m0"
    and pos: "m0 \<in> snd (fst st)"
  shows "snd (placeStep ia cci areas setOverlaps setIndex st) \<noteq> Some MissingPairwiseOverlap \<and>
         m0 \<in> snd (fst (placeStep ia cci areas setOverlaps setIndex st))"
proof (cases "snd st")
  case (Some e)
  then show ?thesis using err pos by (simp add: placeStep_def)
next
  case None
  from nb obtain ovs e where ovs: "recGet setOverlaps setIndex = Some ovs" and e: "e \<in> set ovs" "ov_set e = m0"
    by (auto simp: hasNeighbour_def)
  let ?overlap = "sortBy (\<lambda>a b. ov_size b - ov_size a)
                    (filter (\<lambda>element. ov_set element \<in> snd (fst st)) ovs)"
  have "e \<in> set (filter (\<lambda>element. ov_set element \<in> snd (fst st)) ovs)" using e pos by simp
  then have "filter (\<lambda>element. ov_set element \<in> snd (fst st)) ovs \<noteq> []" by (metis empty_iff set_empty)
  then have nonempty: "?overlap \<noteq> []" by (simp add: sortBy_Nil_iff)
  show ?thesis
  proof (cases "recGet (fst (fst st)) setIndex")
    case None
    with \<open>snd st = None\<close> ne ovs nonempty pos show ?thesis by (simp add: placeStep_def Let_def)
  next
    case (Some this)
    show ?thesis
    proof (cases "candidatePoints cci (fst (fst st)) this ?overlap")
      case (Inl er)
      then have "er \<noteq> MissingPairwiseOverlap" using candidatePoints_not_missing by metis
      with Inl Some \<open>snd st = None\<close> ne ovs nonempty pos show ?thesis
        by (simp add: placeStep_def Let_def)
    next
      case (Inr pts)
      show ?thesis
      proof (cases pts)
        case Nil
        with Inr Some \<open>snd st = None\<close> ne ovs nonempty pos show ?thesis
          by (simp add: placeStep_def Let_def)
      next
        case (Cons p ps)
        let ?best = "fold (tryPoint ia areas (fst (fst st)) setIndex this) (p # ps) (Inr (10 ^ 50, p))"
        show ?thesis
        proof (cases ?best)
          case (Inl er)
          have "?best \<noteq> Inl MissingPairwiseOverlap" by (rule fold_tryPoint_not_missing) simp
          with Inl have "er \<noteq> MissingPairwiseOverlap" by simp
          with Inl Cons Inr Some \<open>snd st = None\<close> ne ovs nonempty pos show ?thesis
            by (simp add: placeStep_def Let_def del: fold_simps)
        next
          case (Inr best)
          with Cons \<open>candidatePoints cci (fst (fst st)) this ?overlap = Inr pts\<close> Some
            \<open>snd st = None\<close> ne ovs nonempty pos show ?thesis
            by (simp add: placeStep_def Let_def positionSet_positioned del: fold_simps)
        qed
      qed
    qed
  qed
qed

lemma singleOf_zeroArea: "singleOf (zeroArea a b) = []"
  by (simp add: singleOf_def zeroArea_def)

lemma singleIds_completed: "set (singleIds (addMissingAreas cmp areas)) = set (singleIds areas)"
  by (auto simp: singleIds_eq addMissingAreas_def missingAreas_def singleOf_zeroArea)

lemma completed_pairs:
  assumes cf: "commaFree areas" and a: "a \<in> set (singleIds areas)" and b: "b \<in> set (singleIds areas)"
    and ab: "a \<noteq> b"
  shows "\<exists>ar\<in>set (addMissingAreas cmp areas). area_sets ar = [a, b] \<or> area_sets ar = [b, a]"
proof -
  let ?ids = "sortBy cmp (singleIds areas)"
  have ca: "CHR '','' \<notin> set a" and cb: "CHR '','' \<notin> set b"
    using cf a b by (blast dest: singleIds_commaFree)+
  have covered: "\<exists>ar\<in>set (addMissingAreas cmp areas). area_sets ar = [x, y] \<or> area_sets ar = [y, x]"
    if xy: "(x, y) \<in> set (idPairs ?ids)" and cx: "CHR '','' \<notin> set x" and cy: "CHR '','' \<notin> set y" for x y
  proof (cases "hasPairArea areas x y")
    case True
    then show ?thesis by (auto simp: hasPairArea_def addMissingAreas_def)
  next
    case False
    then have "pairKey x y \<notin> pairKeys areas" using key_in_pairKeys [OF cf cx cy] by simp
    with xy have "zeroArea x y \<in> set (missingAreas cmp areas)" by (simp add: set_missingAreas)
    moreover have "area_sets (zeroArea x y) = [x, y]" by (simp add: zeroArea_def)
    ultimately show ?thesis unfolding addMissingAreas_def by (metis Un_iff set_append)
  qed
  have "(a, b) \<in> set (idPairs ?ids) \<or> (b, a) \<in> set (idPairs ?ids)"
    using a b ab by (intro idPairs_total) (simp_all add: set_sortBy)
  then show ?thesis
  proof
    assume "(a, b) \<in> set (idPairs ?ids)"
    from covered [OF this ca cb] show ?thesis .
  next
    assume "(b, a) \<in> set (idPairs ?ids)"
    from covered [OF this cb ca] show ?thesis by blast
  qed
qed

lemma greedyLayout_completed_no_missing_overlap:
  assumes cf: "commaFree areas"
    and sz: "\<forall>ar\<in>set areas. length (area_sets ar) = 1 \<longrightarrow> area_size ar \<noteq> 0 \<and> area_sets ar \<noteq> [[]]"
  shows "greedyLayout ia cci (addMissingAreas cmp areas) \<noteq> Inl MissingPairwiseOverlap"
proof -
  let ?C = "addMissingAreas cmp areas"
  let ?st1 = "fold initStep ?C ([], [])"
  let ?circles = "fst ?st1"
  let ?A2 = "filter (\<lambda>a. length (area_sets a) = 2) ?C"
  let ?st2 = "fold (overlapStep ?circles) ?A2 (snd ?st1, None)"
  let ?K = "set (singleIds areas)"
  have szC: "\<forall>ar\<in>set ?C. length (area_sets ar) = 1 \<longrightarrow> area_size ar \<noteq> 0"
  proof (intro ballI impI)
    fix ar assume ar: "ar \<in> set ?C" and l: "length (area_sets ar) = 1"
    have "ar \<in> set areas"
    proof (rule ccontr)
      assume "ar \<notin> set areas"
      with ar have "ar \<in> set (missingAreas cmp areas)" by (simp add: addMissingAreas_def)
      then obtain a b where "ar = zeroArea a b" using missingAreas_shape by blast
      with l show False by (simp add: zeroArea_def)
    qed
    with sz l show "area_size ar \<noteq> 0" by blast
  qed
  have nonempty_ids: "[] \<notin> ?K"
  proof
    assume "[] \<in> ?K"
    then obtain ar where ar: "ar \<in> set areas" and s: "[] \<in> set (singleOf ar)"
      by (auto simp: singleIds_eq)
    from s have "area_sets ar = [[]]" by (auto simp: singleOf_def split: list.splits)
    with sz ar show False by auto
  qed
  from fold_initStep_inv [OF szC]
  have sized: "sizedCircles ?circles" and d2: "distinct (map fst (snd ?st1))" by simp_all
  have keys: "fst ` set ?circles = ?K" "fst ` set (snd ?st1) = ?K"
    using fold_initStep_keys [of ?C "([], [])"] singleIds_completed [of cmp areas]
    by (simp_all add: singleIds_eq)
  have keys2: "fst ` set (fst (snd ?st1, None :: error option)) = fst ` set ?circles"
    using keys by simp
  note f2 = fold_overlapStep [OF sized keys2, of ?A2]
  show ?thesis
  proof (cases "snd ?st2")
    case (Some e)
    have "e \<noteq> MissingPairwiseOverlap" using f2 Some by auto
    with Some show ?thesis by (simp add: greedyLayout_def Let_def)
  next
    case None
    let ?so = "fst ?st2"
    have kso: "map fst ?so = map fst (snd ?st1)" using f2 by simp
    have dso: "distinct (map fst ?so)" unfolding kso by (rule d2)
    have sso: "fst ` set ?so = ?K"
    proof -
      have "set (map fst ?so) = set (map fst (snd ?st1))" by (simp only: kso)
      with keys(2) show ?thesis by simp
    qed
    have nb: "hasNeighbour ?so a b" if a: "a \<in> ?K" and b: "b \<in> ?K" and ab: "a \<noteq> b" for a b
    proof -
      from completed_pairs [OF cf a b ab, of cmp] obtain ar where
        ar: "ar \<in> set ?C" and s: "area_sets ar = [a, b] \<or> area_sets ar = [b, a]" by blast
      from s have "length (area_sets ar) = 2" by auto
      with ar have "ar \<in> set ?A2" by simp
      with f2 None s show ?thesis by blast
    qed
    let ?mo = "mostOverlappedOf ?so"
    have dmo: "distinct (map fst ?mo)" using dso by (rule mostOverlapped_distinct)
    have smo: "set (map fst ?mo) = ?K" using mostOverlapped_keys [of ?so] sso by simp
    show ?thesis
    proof (cases ?mo)
      case Nil
      with None show ?thesis by (simp add: greedyLayout_def Let_def)
    next
      case (Cons m rest)
      let ?m0 = "fst m"
      let ?st3 = "positionSet (?circles, {}) (0, 0) ?m0"
      let ?st4 = "fold (placeStep ia cci ?A2 ?so) (map fst rest) (?st3, None)"
      have m0K: "?m0 \<in> ?K" using smo Cons by auto
      have restK: "\<forall>k\<in>set (map fst rest). k \<in> ?K \<and> k \<noteq> ?m0"
      proof
        fix k assume k: "k \<in> set (map fst rest)"
        have "set (map fst ?mo) = insert ?m0 (set (map fst rest))" unfolding Cons by simp
        with smo k have "k \<in> ?K" by blast
        moreover have "?m0 \<notin> set (map fst rest)" using dmo unfolding Cons by simp
        ultimately show "k \<in> ?K \<and> k \<noteq> ?m0" using k by blast
      qed
      have "snd ?st4 \<noteq> Some MissingPairwiseOverlap \<and> ?m0 \<in> snd (fst ?st4)"
      proof (rule fold_invariant [where I = "\<lambda>st. snd st \<noteq> Some MissingPairwiseOverlap \<and> ?m0 \<in> snd (fst st)"])
        fix k and st :: "(circleRecord \<times> setid set) \<times> error option"
        assume k: "k \<in> set (map fst rest)"
          and st: "snd st \<noteq> Some MissingPairwiseOverlap \<and> ?m0 \<in> snd (fst st)"
        from k restK have kK: "k \<in> ?K" and km: "k \<noteq> ?m0" by auto
        from kK nonempty_ids have kne: "k \<noteq> []" by auto
        from nb [OF kK m0K km] have "hasNeighbour ?so k ?m0" .
        with st kne show "snd (placeStep ia cci ?A2 ?so k st) \<noteq> Some MissingPairwiseOverlap \<and>
              ?m0 \<in> snd (fst (placeStep ia cci ?A2 ?so k st))"
          by (intro placeStep_safe) simp_all
      next
        show "snd (?st3, None :: error option) \<noteq> Some MissingPairwiseOverlap \<and>
              ?m0 \<in> snd (fst (?st3, None :: error option))"
          by (simp add: positionSet_positioned)
      qed
      then have ok: "snd ?st4 \<noteq> Some MissingPairwiseOverlap" by simp
      have "greedyLayout ia cci ?C = (case snd ?st4 of Some e \<Rightarrow> Inl e | None \<Rightarrow> Inr (fst (fst ?st4)))"
        unfolding greedyLayout_def Let_def None option.case Cons list.case list.sel by (rule refl)
      with ok show ?thesis by (auto split: option.splits)
    qed
  qed
qed

section \<open>Determinism of the layout solve\<close>

lemma generatorSeed_given: "params_seed ps = Some s \<Longrightarrow> generatorSeed rnd ps = toUint32 (s * 2 ^ 32)"
  by (simp add: generatorSeed_def)

lemma constrainedMDSLayout_given_seed:
  assumes "params_seed ps = Some s"
  shows "constrainedMDSLayout cg rnd areas ps = constrainedMDSLayout cg rnd' areas ps"
  unfolding constrainedMDSLayout_def generatorSeed_given [OF assms] by (rule refl)

text \<open>
  The constrained-MDS path evaluated: two sets of size \<open>\<pi>\<close>, the layout \<^verbatim>\<open>"MDS"\<close> and one
  restart. The completed list has the two-set Area of size 0, the distance of the two discs
  is 2, and the circles are placed at the first four numbers of the generator, scaled by the
  norm \<open>sqrt 2\<close>.
\<close>

lemma completion_of_unit_discs:
  "addMissingAreas codeUnitCompare [singleArea ''A'' pi, singleArea ''B'' pi] =
     [singleArea ''A'' pi, singleArea ''B'' pi, zeroArea ''A'' ''B'']"
  by (simp add: addMissingAreas_def missingAreas_def singleIds_def pairKeys_def sortBy_def
      singleArea_def pairKey_def)

lemma rows_of_unit_discs:
  "fold rowStep [singleArea ''A'' pi, singleArea ''B'' pi, zeroArea ''A'' ''B''] ([], []) =
     ([singleArea ''A'' pi, singleArea ''B'' pi], [(''A'', 0), (''B'', 1)])"
  by (simp add: rowStep_def singleArea_def zeroArea_def)

lemma distance_of_disjoint_unit_discs: "distanceFromIntersectArea 1 1 0 = Inr 2"
proof -
  have "\<not> pi \<le> 1 / 10 ^ 10" using pi_ge_two by simp
  then show ?thesis
    by (simp add: distanceFromIntersectArea_def SMALL_def bisect_def circleOverlap_def Let_def)
qed

lemma matrices_of_unit_discs:
  "getDistanceMatrices [singleArea ''A'' pi, singleArea ''B'' pi, zeroArea ''A'' ''B'']
     [singleArea ''A'' pi, singleArea ''B'' pi] [(''A'', 0), (''B'', 1)] =
   Inr ([[0, 2], [2, 0]], [[0, - 1], [- 1, 0]])"
proof -
  have "\<not> pi \<le> 1 / 10 ^ 10" using pi_ge_two by simp
  then show ?thesis
    by (simp add: getDistanceMatrices_def matrixStep_def singleArea_def zeroArea_def recGet_def
      distance_of_disjoint_unit_discs setSym_def Let_def numeral_eq_Suc)
qed

lemma norm_of_unit_discs: "norm2 (map norm2 [[0, 2], [2, 0]]) / real (length [[0::real, 2], [2, 0]]) = sqrt 2"
proof -
  have "sqrt 8 = sqrt (2 ^ 2 * 2)" by simp
  also have "\<dots> = 2 * sqrt 2" by (simp only: real_sqrt_mult real_sqrt_abs)
  finally have "sqrt 8 / 2 = sqrt 2" by simp
  moreover have "sqrt 4 = 2" using real_sqrt_abs [of 2] by simp
  ultimately show ?thesis by (simp add: norm2_def)
qed

lemma nextRandom_0: "nextRandom 0 = (1169287280 / 4294967296, 1831565813)"
  by (simp add: nextRandom_def Let_def)

lemma nextRandom_1: "nextRandom 1831565813 = (2931168736 / 4294967296, 3663131626)"
  by (simp add: nextRandom_def Let_def)

lemma nextRandom_2: "nextRandom 3663131626 = (586668210 / 4294967296, 1199730143)"
  by (simp add: nextRandom_def Let_def)

lemma nextRandom_3: "nextRandom 1199730143 = (235247293 / 4294967296, 3031295956)"
  by (simp add: nextRandom_def Let_def)

lemma randoms_zero:
  "randoms (Suc (Suc (Suc (Suc 0)))) 0 =
     ([1169287280 / 4294967296, 2931168736 / 4294967296, 586668210 / 4294967296,
       235247293 / 4294967296], 3031295956)"
  by (simp add: Let_def nextRandom_0 nextRandom_1 nextRandom_2 nextRandom_3)

lemma mds_of_unit_discs:
  assumes "params_restarts ps = Some 1"
  shows "constrainedMDSLayout (ext_conjugateGradient demoExternals) rnd
           [singleArea ''A'' pi, singleArea ''B'' pi, zeroArea ''A'' ''B''] ps =
         Inr (unitDiscs (fst (randoms 4 (generatorSeed rnd ps))))"
  unfolding constrainedMDSLayout_def Let_def rows_of_unit_discs fst_conv snd_conv
    matrices_of_unit_discs sum.case norm_of_unit_discs assms option.case
  by (simp add: restartStep_def demoExternals_def circleStep_def unitDiscs_def singleArea_def Let_def)

lemma loss_of_unit_discs:
  "\<exists>l. lossFunction ia sets [singleArea ''A'' pi, singleArea ''B'' pi, zeroArea ''A'' ''B''] = Inr l"
proof -
  have "lossDefined sets [singleArea ''A'' pi, singleArea ''B'' pi, zeroArea ''A'' ''B'']"
    by (simp add: lossDefined_def singleArea_def zeroArea_def)
  then show ?thesis unfolding lossFunction_def fold_lossStep by simp
qed

lemma venn_of_unit_discs:
  "venn demoExternals rnd [singleArea ''A'' pi, singleArea ''B'' pi] (mdsParams seed) =
     Inr (unitDiscs (fst (randoms 4 (toUint32 ((case seed of Some s \<Rightarrow> s | None \<Rightarrow> rnd 0) * 2 ^ 32)))))"
proof -
  let ?areas = "[singleArea ''A'' pi, singleArea ''B'' pi, zeroArea ''A'' ''B'']"
  let ?s = "case seed of Some s \<Rightarrow> s | None \<Rightarrow> rnd 0"
  let ?p = "(mdsParams seed)\<lparr>params_maxIterations := Some 500, params_seed := Some ?s\<rparr>"
  let ?v = "fst (randoms 4 (toUint32 (?s * 2 ^ 32)))"
  have lc: "ext_localeCompare demoExternals = codeUnitCompare" by (simp add: demoExternals_def)
  have r: "params_restarts ?p = Some 1" by (simp add: mdsParams_def)
  have g: "generatorSeed rnd' ?p = toUint32 (?s * 2 ^ 32)" for rnd'
    by (simp add: generatorSeed_def)
  have m: "constrainedMDSLayout (ext_conjugateGradient demoExternals) rnd' ?areas ?p = Inr (unitDiscs ?v)" for rnd'
    unfolding mds_of_unit_discs [OF r] g by (rule refl)
  have k: "objectKeys (unitDiscs ?v) = [''A'', ''B'']"
    by (simp add: objectKeys_def objectEntries_plain unitDiscs_def)
  obtain l where l: "lossFunction (ext_intersectionArea demoExternals)
      (layoutOf (unitDiscs ?v) [''A'', ''B'']
         (concat (map (\<lambda>k. case recGet (unitDiscs ?v) k of None \<Rightarrow> [] | Some c \<Rightarrow> [circle_x c, circle_y c])
            [''A'', ''B''])))
      ?areas = Inr l"
    using loss_of_unit_discs by blast
  have nm: "ext_nelderMead demoExternals
              (\<lambda>vals. lossFunction (ext_intersectionArea demoExternals)
                         (layoutOf (unitDiscs ?v) [''A'', ''B''] vals) ?areas)
              (concat (map (\<lambda>k. case recGet (unitDiscs ?v) k of None \<Rightarrow> [] | Some c \<Rightarrow> [circle_x c, circle_y c])
                 [''A'', ''B''])) q =
            Inr (concat (map (\<lambda>k. case recGet (unitDiscs ?v) k of None \<Rightarrow> [] | Some c \<Rightarrow> [circle_x c, circle_y c])
                 [''A'', ''B'']))" for q
    by (simp add: demoExternals_def l [unfolded demoExternals_def, simplified])
  have wb: "writeBack (unitDiscs ?v) [''A'', ''B'']
              (concat (map (\<lambda>k. case recGet (unitDiscs ?v) k of None \<Rightarrow> [] | Some c \<Rightarrow> [circle_x c, circle_y c])
                 [''A'', ''B''])) = unitDiscs ?v"
    by (simp add: writeBack_def unitDiscs_def recGet_def)
  have p: "(case params_maxIterations (mdsParams seed) of None \<Rightarrow> 500 | Some n \<Rightarrow> if n = 0 then 500 else n) = 500"
    "params_layout ?p = Some MDS"
    by (simp_all add: mdsParams_def)
  have sd: "(case params_seed (mdsParams seed) of Some s \<Rightarrow> s | None \<Rightarrow> rnd 0) = ?s"
    by (simp add: mdsParams_def)
  show ?thesis
    unfolding venn_def Let_def lc completion_of_unit_discs p sd option.case layoutKind.case m sum.case k nm wb
    by (rule refl)
qed

text \<open>
  C9. With an explicit seed in the parameters, the results of \<^verbatim>\<open>venn\<close> and of
  \<^verbatim>\<open>constrainedMDSLayout\<close> do not depend on what \<^verbatim>\<open>Math.random()\<close> returns: two runs with
  equal Areas, equal parameters and equal seed return the same CircleRecord (or throw the same
  error), all random start positions being drawn from the generator that the seed starts.
\<close>

theorem venn_deterministic_given_seed:
  "params_seed ps = Some s \<longrightarrow>
     venn ext rnd areas ps = venn ext rnd' areas ps \<and>
     constrainedMDSLayout cg rnd areas ps = constrainedMDSLayout cg rnd' areas ps"
proof (intro impI conjI)
  assume s: "params_seed ps = Some s"
  let ?mi = "case params_maxIterations ps of None \<Rightarrow> 500 | Some n \<Rightarrow> if n = 0 then 500 else n"
  let ?p = "ps\<lparr>params_maxIterations := Some ?mi, params_seed := Some s\<rparr>"
  let ?greedy = "\<lambda>areas (ps :: params). greedyLayout (ext_intersectionArea ext) (ext_circleCircleIntersection ext) areas"
  let ?areas = "addMissingAreas (ext_localeCompare ext) areas"
  have sp: "params_seed ?p = Some s" by simp
  have m: "constrainedMDSLayout (ext_conjugateGradient ext) rnd as ?p =
           constrainedMDSLayout (ext_conjugateGradient ext) rnd' as ?p" for as
    using sp by (rule constrainedMDSLayout_given_seed)
  have b: "bestInitialLayout ?greedy (constrainedMDSLayout (ext_conjugateGradient ext) rnd) L ?areas ?p =
           bestInitialLayout ?greedy (constrainedMDSLayout (ext_conjugateGradient ext) rnd') L ?areas ?p" for L
    unfolding bestInitialLayout_def m [of ?areas] by (rule refl)
  have i: "(case params_layout ?p of
               Some Greedy \<Rightarrow> ?greedy
             | Some MDS \<Rightarrow> constrainedMDSLayout (ext_conjugateGradient ext) rnd
             | _ \<Rightarrow> bestInitialLayout ?greedy (constrainedMDSLayout (ext_conjugateGradient ext) rnd)
                      (lossFunction (ext_intersectionArea ext))) ?areas ?p =
           (case params_layout ?p of
               Some Greedy \<Rightarrow> ?greedy
             | Some MDS \<Rightarrow> constrainedMDSLayout (ext_conjugateGradient ext) rnd'
             | _ \<Rightarrow> bestInitialLayout ?greedy (constrainedMDSLayout (ext_conjugateGradient ext) rnd')
                      (lossFunction (ext_intersectionArea ext))) ?areas ?p"
  proof (cases "params_layout ?p")
    case None
    show ?thesis unfolding None option.case by (rule b)
  next
    case (Some k)
    show ?thesis
    proof (cases k)
      case Greedy
      show ?thesis unfolding Some Greedy option.case layoutKind.case by (rule refl)
    next
      case MDS
      show ?thesis unfolding Some MDS option.case layoutKind.case by (rule m)
    next
      case Best
      show ?thesis unfolding Some Best option.case layoutKind.case by (rule b)
    qed
  qed
  show "venn ext rnd areas ps = venn ext rnd' areas ps"
    unfolding venn_def Let_def s option.case i by (rule refl)
  show "constrainedMDSLayout cg rnd areas ps = constrainedMDSLayout cg rnd' areas ps"
    using s by (rule constrainedMDSLayout_given_seed)
qed

theorem venn_deterministic_given_seed_witness:
  "params_seed (mdsParams (Some 0)) = Some 0 \<and>
   venn demoExternals (\<lambda>n. 0) [singleArea ''A'' pi, singleArea ''B'' pi] (mdsParams (Some 0)) =
   venn demoExternals (\<lambda>n. 1 / 2) [singleArea ''A'' pi, singleArea ''B'' pi] (mdsParams (Some 0)) \<and>
   venn demoExternals (\<lambda>n. 1 / 2) [singleArea ''A'' pi, singleArea ''B'' pi] (mdsParams (Some 0)) =
   Inr (unitDiscs [1169287280 / 4294967296, 2931168736 / 4294967296, 586668210 / 4294967296,
                   235247293 / 4294967296])"
  using venn_deterministic_given_seed
    [of "mdsParams (Some 0)" 0 demoExternals "\<lambda>n. 0" "[singleArea ''A'' pi, singleArea ''B'' pi]"
        "\<lambda>n. 1 / 2"]
    venn_of_unit_discs [of "\<lambda>n. 1 / 2" "Some 0"] randoms_zero
  by (simp add: mdsParams_def toUint32_def numeral_eq_Suc)

text \<open>
  Without a seed the generator is started from \<^verbatim>\<open>Math.random()\<close>, and the layout of the
  same input depends on the number it returns.
\<close>

lemma generatorSeed_random:
  "generatorSeed (\<lambda>n. 0) noParams = 0" "generatorSeed (\<lambda>n. 1 / 2) noParams = 2147483648"
  by (simp_all add: generatorSeed_def noParams_def toUint32_def)

lemma randoms_first: "fst (randoms (Suc n) g) ! 0 = fst (nextRandom g)"
  by (simp add: Let_def)

lemma nextRandom_half: "fst (nextRandom 2147483648) = 1451815573 / 4294967296"
  by (simp add: nextRandom_def Let_def)

lemma venn_unseeded_depends_on_random:
  "venn demoExternals (\<lambda>n. 0) [singleArea ''A'' pi, singleArea ''B'' pi] (mdsParams None) \<noteq>
   venn demoExternals (\<lambda>n. 1 / 2) [singleArea ''A'' pi, singleArea ''B'' pi] (mdsParams None)"
proof -
  have t: "toUint32 0 = 0" "toUint32 2147483648 = 2147483648"
    by (simp_all add: toUint32_def)
  have f: "fst (randoms 4 0) ! 0 = 1169287280 / 4294967296"
    "fst (randoms 4 2147483648) ! 0 = 1451815573 / 4294967296"
    using randoms_first [of 3 0] randoms_first [of 3 2147483648]
    by (simp_all add: nextRandom_0 nextRandom_half)
  have "circle_x (snd (unitDiscs (fst (randoms 4 0)) ! 0)) \<noteq>
        circle_x (snd (unitDiscs (fst (randoms 4 2147483648)) ! 0))"
    by (simp add: unitDiscs_def f)
  then have "unitDiscs (fst (randoms 4 0)) \<noteq> unitDiscs (fst (randoms 4 2147483648))"
    by metis
  then show ?thesis by (simp add: venn_of_unit_discs t)
qed

end
